theory Spec2Isabelle
  imports Main "HOL-Library.Word" "HOL-Library.Char_ord" "HOL-Library.List_Lexorder"
    "HOL-Library.Sublist"
begin

section \<open>Bytes, replies and outcomes\<close>

text \<open>
  A Go \<^verbatim>\<open>byte\<close> is a \<^typ>\<open>char\<close> (eight bits), a \<^verbatim>\<open>[]byte\<close> and a Go
  \<^verbatim>\<open>string\<close> are both \<^typ>\<open>string\<close>. Byte strings are compared
  lexicographically on the unsigned byte values, as the ordered store does.
\<close>

type_synonym byte = char
type_synonym bytes = string
type_synonym int64 = "64 word"

text \<open>The command arguments: \<^verbatim>\<open>Args\<close>, a slice of byte strings, the command name stripped.\<close>

type_synonym Args = "bytes list"

text \<open>
  The error kinds of the command package. \<^verbatim>\<open>ErrFmtWrongNumberArgument\<close> is a format
  that takes the command name.
\<close>

datatype err =
    ErrFmtWrongNumberArgument string
  | ErrWrongType
  | ErrNotValidInt
  | ErrNotValidFloat

text \<open>
  The reply objects of package resp that the handlers write: \<^verbatim>\<open>resp.ZeroInteger\<close> is
  \<open>Integer 0\<close>, \<^verbatim>\<open>resp.OneInteger\<close> is \<open>Integer 1\<close>, \<^verbatim>\<open>resp.EmptyArray\<close> is
  \<open>Array []\<close>.
\<close>

datatype reply =
    NilBulkString
  | Integer int
  | BulkString bytes
  | Array "reply list"
  | OkSimpleString
  | Error err

abbreviation ZeroInteger :: reply where "ZeroInteger \<equiv> Integer 0"
abbreviation OneInteger :: reply where "OneInteger \<equiv> Integer 1"
abbreviation EmptyArray :: reply where "EmptyArray \<equiv> Array []"

section \<open>The ordered store\<close>

text \<open>
  The embedded ordered key-value store: its entries, in the order of their keys. Every
  operation below keeps a list that is strictly sorted by key in that shape.
\<close>

type_synonym store = "(bytes \<times> bytes) list"

definition sorted_store :: "store \<Rightarrow> bool" where
  "sorted_store db = sorted_wrt (<) (map fst db)"

text \<open>One \<^verbatim>\<open>Put\<close> of a batch: the value of an existing key is replaced in place, a new key
  is inserted at its position in the key order.\<close>

fun put :: "bytes \<Rightarrow> bytes \<Rightarrow> store \<Rightarrow> store" where
  "put k v [] = [(k, v)]"
| "put k v ((k', v') # db) =
     (if k = k' then (k, v) # db
      else if k < k' then (k, v) # (k', v') # db
      else (k', v') # put k v db)"

text \<open>\<^verbatim>\<open>ldb.db.Write(batch, nil)\<close>: the puts of the batch, applied in the order they were added.\<close>

definition write_batch :: "(bytes \<times> bytes) list \<Rightarrow> store \<Rightarrow> store" where
  "write_batch ops db = fold (\<lambda>(k, v). put k v) ops db"

text \<open>\<^verbatim>\<open>ldb.db.NewIterator(util.BytesPrefix(p), nil)\<close>, run to its end: the entries whose key
  starts with \<open>p\<close>, in key order.\<close>

definition iterate :: "store \<Rightarrow> bytes \<Rightarrow> (bytes \<times> bytes) list" where
  "iterate db p = filter (\<lambda>(k, v). prefix p k) db"

text \<open>Modelled from the spec: \<^verbatim>\<open>ldb.get\<close>, the point lookup of the storage engine, declared
  outside the files at hand; a key with no stored entry reads as the zero-length value.\<close>

definition get :: "store \<Rightarrow> bytes \<Rightarrow> bytes" where
  "get db k = (case map_of db k of None \<Rightarrow> [] | Some v \<Rightarrow> v)"

text \<open>Modelled from the spec: \<^verbatim>\<open>ldb.delete\<close>, the atomic batched delete of the storage
  engine, declared outside the files at hand; it removes the entries of all the given keys.\<close>

definition delete :: "store \<Rightarrow> bytes list \<Rightarrow> store" where
  "delete db keys = filter (\<lambda>(k, v). k \<notin> set keys) db"

section \<open>Key encoding\<close>

text \<open>Modelled from the spec: the two namespace prefixes and the separator, constants
  declared outside the files at hand. The source writes the separator as the literal
  \<^verbatim>\<open>'|'\<close> and documents a field key as \<^verbatim>\<open>-Key|Field\<close>; the metadata prefix is only
  required to differ from the value prefix.\<close>

definition ValuePrefix :: byte where "ValuePrefix = CHR ''-''"
definition MetaPrefix :: byte where "MetaPrefix = CHR ''+''"
definition Seperator :: byte where "Seperator = CHR ''|''"

text \<open>Modelled from the spec: the type tags, one byte each, declared in package resp outside
  the files at hand: \<open>Hash\<close> for the field-map type, \<open>String\<close> standing for any other
  type, \<open>NoType\<close> for no type.\<close>

definition NoType :: byte where "NoType = CHR 0x00"
definition String :: byte where "String = CHR 0x01"
definition Hash :: byte where "Hash = CHR 0x03"

text \<open>Modelled from the spec: \<^verbatim>\<open>encodeMetaKey\<close> (prefix byte, then the key bytes) and
  \<^verbatim>\<open>encodeMetadata\<close> (the value of a metadata entry is a single type tag), both declared
  outside the files at hand.\<close>

definition encodeMetaKey :: "bytes \<Rightarrow> bytes" where
  "encodeMetaKey key = MetaPrefix # key"

definition encodeMetadata :: "byte \<Rightarrow> bytes" where
  "encodeMetadata tipe = [tipe]"

text \<open>Modelled from the spec: \<^verbatim>\<open>ldb.Has\<close>, declared outside the files at hand: existence
  and type of a key by lookup of its metadata entry; no metadata entry means that the key
  does not exist.\<close>

definition Has :: "store \<Rightarrow> bytes \<Rightarrow> bool \<times> byte" where
  "Has db key =
     (case map_of db (encodeMetaKey key) of
        None \<Rightarrow> (False, NoType)
      | Some [] \<Rightarrow> (True, NoType)
      | Some (tipe # _) \<Rightarrow> (True, tipe))"

text \<open>\<^verbatim>\<open>encodeFieldKey\<close>; a \<^verbatim>\<open>nil\<close> field is the empty byte string.\<close>

definition encodeFieldKey :: "bytes \<Rightarrow> bytes \<Rightarrow> bytes" where
  "encodeFieldKey key field = ([ValuePrefix] @ key @ [Seperator]) @ field"

text \<open>\<^verbatim>\<open>strings.IndexByte\<close>: the index of the first occurrence of the byte, or -1.\<close>

fun IndexByte :: "bytes \<Rightarrow> byte \<Rightarrow> int" where
  "IndexByte [] c = - 1"
| "IndexByte (x # xs) c =
     (if x = c then 0
      else (let i = IndexByte xs c in if i < 0 then - 1 else i + 1))"

section \<open>Storage of hashes\<close>

record Field =
  Key :: bytes
  Value :: bytes

text \<open>
  A Go \<^verbatim>\<open>map[string][]byte\<close>: an association list with one pair per key. Reading a
  missing key gives the zero value, the \<^verbatim>\<open>nil\<close> slice.
\<close>

type_synonym gomap = "(bytes \<times> bytes) list"

fun map_set :: "bytes \<Rightarrow> bytes \<Rightarrow> gomap \<Rightarrow> gomap" where
  "map_set k v [] = [(k, v)]"
| "map_set k v ((k', v') # m) = (if k = k' then (k, v) # m else (k', v') # map_set k v m)"

definition map_get :: "gomap \<Rightarrow> bytes \<Rightarrow> bytes" where
  "map_get m k = (case map_of m k of None \<Rightarrow> [] | Some v \<Rightarrow> v)"

text \<open>The field name of an iterated key: what follows the first \<^verbatim>\<open>'|'\<close> of the whole
  encoded key.\<close>

definition field_of_key :: "bytes \<Rightarrow> bytes" where
  "field_of_key k = (let sepIndex = IndexByte k (CHR ''|'') in drop (nat (sepIndex + 1)) k)"

definition DeleteHash :: "store \<Rightarrow> bytes \<Rightarrow> store" where
  "DeleteHash db key =
     (let keys = [encodeMetaKey key];
          hashPrefix = encodeFieldKey key [];
          keys = keys @ map fst (iterate db hashPrefix)
      in delete db keys)"

definition PutHash :: "store \<Rightarrow> bytes \<Rightarrow> byte \<Rightarrow> gomap \<Rightarrow> store" where
  "PutHash db key tipe hash =
     write_batch
       ((encodeMetaKey key, encodeMetadata tipe) #
        map (\<lambda>(k, v). (encodeFieldKey key k, v)) hash) db"

definition GetHash :: "store \<Rightarrow> bytes \<Rightarrow> gomap" where
  "GetHash db key =
     (let hashPrefix = encodeFieldKey key []
      in fold (\<lambda>(k, v) hash. map_set (field_of_key k) v hash) (iterate db hashPrefix) [])"

definition GetHashAsArray :: "store \<Rightarrow> bytes \<Rightarrow> Field list" where
  "GetHashAsArray db key =
     (let hashPrefix = encodeFieldKey key []
      in map (\<lambda>(k, v). \<lparr>Key = field_of_key k, Value = v\<rparr>) (iterate db hashPrefix))"

definition DeleteFields :: "store \<Rightarrow> bytes \<Rightarrow> bytes list \<Rightarrow> store" where
  "DeleteFields db key flds =
     (let keys = map (encodeFieldKey key) flds;
          db1 = delete db keys;
          hashPrefix = encodeFieldKey key []
      in if iterate db1 hashPrefix = [] then delete db1 [encodeMetaKey key] else db1)"

definition GetFields :: "store \<Rightarrow> bytes \<Rightarrow> bytes list \<Rightarrow> gomap" where
  "GetFields db key flds =
     fold (\<lambda>field hash. map_set field (get db (encodeFieldKey key field)) hash) flds []"

definition GetFieldNames :: "store \<Rightarrow> bytes \<Rightarrow> bytes list" where
  "GetFieldNames db key =
     (let hashPrefix = encodeFieldKey key []
      in map (\<lambda>(k, v). field_of_key k) (iterate db hashPrefix))"

definition GetFieldsAsArray :: "store \<Rightarrow> bytes \<Rightarrow> bytes list \<Rightarrow> Field list" where
  "GetFieldsAsArray db key flds =
     map (\<lambda>field. \<lparr>Key = field, Value = get db (encodeFieldKey key field)\<rparr>) flds"

section \<open>Number conversions of package strconv\<close>

text \<open>
  \<^verbatim>\<open>strconv.ParseInt(s, 10, 64)\<close> of the Go library: an optional sign, then one or more
  decimal digits, the value within the signed 64-bit range; everything else is an error
  (\<open>None\<close>).
\<close>

definition is_digit :: "byte \<Rightarrow> bool" where
  "is_digit c = (c \<in> set ''0123456789'')"

definition digits_value :: "bytes \<Rightarrow> int" where
  "digits_value ds = fold (\<lambda>c n. n * 10 + (of_char c - 48)) ds 0"

definition ParseInt :: "bytes \<Rightarrow> int64 option" where
  "ParseInt s =
     (let (neg, ds) =
            (case s of
               [] \<Rightarrow> (False, [])
             | c # r \<Rightarrow>
                 if c = CHR ''+'' then (False, r)
                 else if c = CHR ''-'' then (True, r)
                 else (False, s))
      in if ds = [] \<or> \<not> list_all is_digit ds then None
         else
           let un = digits_value ds
           in if \<not> neg \<and> un \<ge> 2 ^ 63 then None
              else if neg \<and> un > 2 ^ 63 then None
              else Some (if neg then - word_of_int un else word_of_int un))"

text \<open>\<^verbatim>\<open>strconv.FormatInt(i, 10)\<close>: the decimal digits without leading zeros, after a minus
  sign for a negative number.\<close>

definition digit_char :: "int \<Rightarrow> byte" where
  "digit_char d = char_of (48 + d)"

function FormatUint :: "int \<Rightarrow> bytes" where
  "FormatUint n =
     (if n < 10 then [digit_char n] else FormatUint (n div 10) @ [digit_char (n mod 10)])"
  by pat_completeness auto
termination
  by (relation "measure nat") auto

declare FormatUint.simps [simp del]

definition FormatInt :: "int64 \<Rightarrow> bytes" where
  "FormatInt i =
     (if sint i < 0 then CHR ''-'' # FormatUint (- sint i) else FormatUint (sint i))"

text \<open>
  The 64-bit floating-point numbers of Go and their conversions
  (\<^verbatim>\<open>strconv.ParseFloat(s, 64)\<close>, \<^verbatim>\<open>strconv.FormatFloat(x, 'f', -1, 64)\<close>, addition, the
  constant \<^verbatim>\<open>0.0\<close>) are not part of the repository: the float handler takes them as
  a parameter, and what is proved of it holds for every choice of them.
\<close>

record 'f float64 =
  ParseFloat :: "bytes \<Rightarrow> 'f option"
  FormatFloat :: "'f \<Rightarrow> bytes"
  float_add :: "'f \<Rightarrow> 'f \<Rightarrow> 'f"
  float_zero :: 'f

section \<open>The command handlers\<close>

text \<open>
  A handler gets the arguments and the database and writes one reply; the model returns
  the reply with the database after the command. Indexing a slice out of its range is a
  run-time panic, the outcome \<open>Panic\<close>. The reader/writer lock of the database is held
  from the first storage call to the return and is not part of the model.
\<close>

datatype outcome = Reply reply store | Panic

text \<open>\<^verbatim>\<open>v[i]\<close> with its bounds check.\<close>

definition arg :: "Args \<Rightarrow> nat \<Rightarrow> (bytes \<Rightarrow> outcome) \<Rightarrow> outcome" where
  "arg v i body = (if i < length v then body (v ! i) else Panic)"

definition hdel :: "Args \<Rightarrow> store \<Rightarrow> outcome" where
  "hdel v db =
     (if length v < 2 then Reply (Error (ErrFmtWrongNumberArgument ''hdel'')) db
      else arg v 0 (\<lambda>key.
        let (keyExists, tipe) = Has db key
        in if \<not> keyExists then Reply ZeroInteger db
           else if keyExists \<and> tipe \<noteq> Hash then Reply (Error ErrWrongType) db
           else
             let flds = drop 1 v;
                 hash = GetFields db key flds;
                 count = length (filter (\<lambda>(k, value). length value \<noteq> 0) hash);
                 db' = DeleteFields db key flds
             in Reply (Integer (int count)) db'))"

definition hexists :: "Args \<Rightarrow> store \<Rightarrow> outcome" where
  "hexists v db =
     arg v 0 (\<lambda>key.
       let (keyExists, tipe) = Has db key
       in if keyExists \<and> tipe \<noteq> Hash then Reply (Error ErrWrongType) db
          else arg v 1 (\<lambda>field.
            let hash = GetFields db key [field]
            in if length (map_get hash field) = 0 then Reply ZeroInteger db
               else Reply OneInteger db))"

definition hget :: "Args \<Rightarrow> store \<Rightarrow> outcome" where
  "hget v db =
     arg v 0 (\<lambda>key.
       let (keyExists, tipe) = Has db key
       in if \<not> keyExists then Reply NilBulkString db
          else if keyExists \<and> tipe \<noteq> Hash then Reply (Error ErrWrongType) db
          else arg v 1 (\<lambda>field.
            let hash = GetFields db key [field]
            in if length (map_get hash field) = 0 then Reply NilBulkString db
               else Reply (BulkString (map_get hash field)) db))"

definition hgetall :: "Args \<Rightarrow> store \<Rightarrow> outcome" where
  "hgetall v db =
     arg v 0 (\<lambda>key.
       let (keyExists, tipe) = Has db key
       in if \<not> keyExists then Reply EmptyArray db
          else if keyExists \<and> tipe \<noteq> Hash then Reply (Error ErrWrongType) db
          else
            let hash = GetHashAsArray db key;
                arr = concat (map (\<lambda>field. [BulkString (Key field), BulkString (Value field)]) hash)
            in Reply (Array arr) db)"

definition hincrby :: "Args \<Rightarrow> store \<Rightarrow> outcome" where
  "hincrby v db =
     arg v 2 (\<lambda>delta.
       case ParseInt delta of
         None \<Rightarrow> Reply (Error ErrNotValidInt) db
       | Some by \<Rightarrow>
           arg v 0 (\<lambda>key.
             let (keyExists, tipe) = Has db key
             in if keyExists \<and> tipe \<noteq> Hash then Reply (Error ErrWrongType) db
                else arg v 1 (\<lambda>field.
                  let hash = GetFields db key [field]
                  in if length (map_get hash field) = 0 then
                       let newVal = 0 + by;
                           hash = map_set field (FormatInt newVal) hash
                       in Reply (Integer (sint newVal)) (PutHash db key Hash hash)
                     else
                       case ParseInt (map_get hash field) of
                         None \<Rightarrow> Reply (Error ErrNotValidInt) db
                       | Some i \<Rightarrow>
                           let newVal = i + by;
                               hash = map_set field (FormatInt newVal) hash
                           in Reply (Integer (sint newVal)) (PutHash db key Hash hash))))"

definition hincrbyfloat :: "'f float64 \<Rightarrow> Args \<Rightarrow> store \<Rightarrow> outcome" where
  "hincrbyfloat fl v db =
     arg v 2 (\<lambda>delta.
       case ParseFloat fl delta of
         None \<Rightarrow> Reply (Error ErrNotValidInt) db
       | Some by \<Rightarrow>
           arg v 0 (\<lambda>key.
             let (exist, tipe) = Has db key
             in if exist \<and> tipe \<noteq> Hash then Reply (Error ErrWrongType) db
                else arg v 1 (\<lambda>field.
                  let hash = GetFields db key [field]
                  in if length (map_get hash field) = 0 then
                       let newVal = float_add fl (float_zero fl) by;
                           hash = map_set field (FormatFloat fl newVal) hash
                       in Reply (BulkString (map_get hash field)) (PutHash db key Hash hash)
                     else
                       case ParseFloat fl (map_get hash field) of
                         None \<Rightarrow> Reply (Error ErrNotValidFloat) db
                       | Some f \<Rightarrow>
                           let newVal = float_add fl f by;
                               hash = map_set field (FormatFloat fl newVal) hash
                           in Reply (BulkString (map_get hash field)) (PutHash db key Hash hash))))"

definition hkeys :: "Args \<Rightarrow> store \<Rightarrow> outcome" where
  "hkeys v db =
     arg v 0 (\<lambda>key.
       let (keyExists, tipe) = Has db key
       in if \<not> keyExists then Reply EmptyArray db
          else if keyExists \<and> tipe \<noteq> Hash then Reply (Error ErrWrongType) db
          else
            let flds = GetFieldNames db key
            in Reply (Array (map BulkString flds)) db)"

definition hvals :: "Args \<Rightarrow> store \<Rightarrow> outcome" where
  "hvals v db =
     arg v 0 (\<lambda>key.
       let (keyExists, tipe) = Has db key
       in if \<not> keyExists then Reply EmptyArray db
          else if keyExists \<and> tipe \<noteq> Hash then Reply (Error ErrWrongType) db
          else
            let hash = GetHashAsArray db key
            in Reply (Array (map (\<lambda>field. BulkString (Value field)) hash)) db)"

definition hlen :: "Args \<Rightarrow> store \<Rightarrow> outcome" where
  "hlen v db =
     arg v 0 (\<lambda>key.
       let (keyExists, tipe) = Has db key
       in if \<not> keyExists then Reply ZeroInteger db
          else if keyExists \<and> tipe \<noteq> Hash then Reply (Error ErrWrongType) db
          else
            let flds = GetFieldNames db key
            in Reply (Integer (int (length flds))) db)"

definition hmget :: "Args \<Rightarrow> store \<Rightarrow> outcome" where
  "hmget v db =
     (if length v < 2 then Reply (Error (ErrFmtWrongNumberArgument ''hmget'')) db
      else arg v 0 (\<lambda>key.
        let (keyExists, tipe) = Has db key
        in if keyExists \<and> tipe \<noteq> Hash then Reply (Error ErrWrongType) db
           else
             let flds = drop 1 v;
                 hash = GetFieldsAsArray db key flds
             in Reply (Array (map (\<lambda>field. if length (Value field) = 0 then NilBulkString
                                             else BulkString (Value field)) hash)) db))"

text \<open>The loop of \<^verbatim>\<open>hmset\<close> over the field/value pairs, from index \<open>i\<close>; \<open>None\<close> is the
  panic of \<^verbatim>\<open>v[i+1]\<close> out of range.\<close>

function hmset_loop :: "Args \<Rightarrow> nat \<Rightarrow> gomap \<Rightarrow> gomap option" where
  "hmset_loop v i hash =
     (if i < length v then
        (if i + 1 < length v then hmset_loop v (i + 2) (map_set (v ! i) (v ! (i + 1)) hash)
         else None)
      else Some hash)"
  by pat_completeness auto
termination
  by (relation "measure (\<lambda>(v, i, hash). length v - i)") auto

declare hmset_loop.simps [simp del]

definition hmset :: "Args \<Rightarrow> store \<Rightarrow> outcome" where
  "hmset v db =
     (if length v \<le> 1 \<or> length v mod 2 \<noteq> 1 then
        Reply (Error (ErrFmtWrongNumberArgument ''hmset'')) db
      else arg v 0 (\<lambda>key.
        let (exist, tipe) = Has db key
        in if exist \<and> tipe \<noteq> Hash then Reply (Error ErrWrongType) db
           else
             case hmset_loop v 1 [] of
               None \<Rightarrow> Panic
             | Some hash \<Rightarrow> Reply OkSimpleString (PutHash db key Hash hash)))"

definition hset :: "Args \<Rightarrow> store \<Rightarrow> outcome" where
  "hset v db =
     arg v 0 (\<lambda>key.
       let (exist, tipe) = Has db key
       in if exist \<and> tipe \<noteq> Hash then Reply (Error ErrWrongType) db
          else arg v 1 (\<lambda>field.
            let hash = GetFields db key [field];
                fieldExists = (length (map_get hash field) \<noteq> 0)
            in arg v 2 (\<lambda>val.
                 let hash = map_set field val hash;
                     db' = PutHash db key Hash hash
                 in if \<not> fieldExists then Reply OneInteger db' else Reply ZeroInteger db')))"

definition hsetnx :: "Args \<Rightarrow> store \<Rightarrow> outcome" where
  "hsetnx v db =
     arg v 0 (\<lambda>key.
       let (exist, tipe) = Has db key
       in if exist \<and> tipe \<noteq> Hash then Reply (Error ErrWrongType) db
          else arg v 1 (\<lambda>field.
            let hash = GetFields db key [field];
                fieldExists = (length (map_get hash field) \<noteq> 0)
            in if \<not> fieldExists then
                 arg v 2 (\<lambda>val.
                   let hash = map_set field val hash
                   in Reply OneInteger (PutHash db key Hash hash))
               else Reply ZeroInteger db))"

definition hstrlen :: "Args \<Rightarrow> store \<Rightarrow> outcome" where
  "hstrlen v db =
     arg v 0 (\<lambda>key.
       let (exist, tipe) = Has db key
       in if \<not> exist then Reply ZeroInteger db
          else if exist \<and> tipe \<noteq> Hash then Reply (Error ErrWrongType) db
          else arg v 1 (\<lambda>field.
            let hash = GetFields db key [field]
            in Reply (Integer (int (length (map_get hash field)))) db))"

text \<open>The handlers of the file, by command name.\<close>

datatype command =
  HDEL | HEXISTS | HGET | HGETALL | HINCRBY | HINCRBYFLOAT | HKEYS | HLEN | HMGET | HMSET
  | HSET | HSETNX | HSTRLEN | HVALS

fun handler :: "'f float64 \<Rightarrow> command \<Rightarrow> Args \<Rightarrow> store \<Rightarrow> outcome" where
  "handler fl HDEL = hdel"
| "handler fl HEXISTS = hexists"
| "handler fl HGET = hget"
| "handler fl HGETALL = hgetall"
| "handler fl HINCRBY = hincrby"
| "handler fl HINCRBYFLOAT = hincrbyfloat fl"
| "handler fl HKEYS = hkeys"
| "handler fl HLEN = hlen"
| "handler fl HMGET = hmget"
| "handler fl HMSET = hmset"
| "handler fl HSET = hset"
| "handler fl HSETNX = hsetnx"
| "handler fl HSTRLEN = hstrlen"
| "handler fl HVALS = hvals"

section \<open>Notions used by the properties\<close>

text \<open>A record key in which the separator byte does not occur.\<close>

definition sep_free :: "bytes \<Rightarrow> bool" where
  "sep_free key = (CHR ''|'' \<notin> set key)"

text \<open>The test every handler makes on the metadata of its key: the key exists with a type
  other than the hash type.\<close>

definition wrong_type :: "store \<Rightarrow> bytes \<Rightarrow> bool" where
  "wrong_type db key = (case Has db key of (exist, tipe) \<Rightarrow> exist \<and> tipe \<noteq> Hash)"

text \<open>The argument list of a multi-set command: the key, then each field with its value.\<close>

fun pair_args :: "(bytes \<times> bytes) list \<Rightarrow> Args" where
  "pair_args [] = []"
| "pair_args ((f, x) # ps) = f # x # pair_args ps"

text \<open>
  The arguments pass the checks that a handler makes before it looks at the type of the
  key: the argument count in \<^verbatim>\<open>hdel\<close>, \<^verbatim>\<open>hmget\<close> and \<^verbatim>\<open>hmset\<close>, a third argument that
  parses in the two increments; the other handlers only need the key.
\<close>

fun accepts :: "'f float64 \<Rightarrow> command \<Rightarrow> Args \<Rightarrow> bool" where
  "accepts fl HDEL v = (2 \<le> length v)"
| "accepts fl HMGET v = (2 \<le> length v)"
| "accepts fl HMSET v = (1 < length v \<and> odd (length v))"
| "accepts fl HINCRBY v = (3 \<le> length v \<and> ParseInt (v ! 2) \<noteq> None)"
| "accepts fl HINCRBYFLOAT v = (3 \<le> length v \<and> ParseFloat fl (v ! 2) \<noteq> None)"
| "accepts fl c v = (1 \<le> length v)"

text \<open>The number of arguments that a handler of fixed arity indexes; 0 for the three
  handlers that check the count themselves.\<close>

fun arity :: "command \<Rightarrow> nat" where
  "arity HDEL = 0"
| "arity HMGET = 0"
| "arity HMSET = 0"
| "arity HGETALL = 1"
| "arity HKEYS = 1"
| "arity HVALS = 1"
| "arity HLEN = 1"
| "arity HEXISTS = 2"
| "arity HGET = 2"
| "arity HSTRLEN = 2"
| "arity HINCRBY = 3"
| "arity HINCRBYFLOAT = 3"
| "arity HSET = 3"
| "arity HSETNX = 3"

text \<open>An instance of the floating-point parameter for the examples: whole numbers in
  decimal notation.\<close>

definition whole_numbers :: "int float64" where
  "whole_numbers =
     \<lparr>ParseFloat = (\<lambda>s. map_option sint (ParseInt s)),
      FormatFloat = (\<lambda>x. FormatInt (word_of_int x)),
      float_add = (+),
      float_zero = 0\<rparr>"

text \<open>
  The invariant that ties the metadata of a key to its fields: the key exists with the hash
  type exactly when some entry lies under its field prefix.
\<close>

definition hash_inv :: "store \<Rightarrow> bytes \<Rightarrow> bool" where
  "hash_inv db key =
     ((Has db key = (True, Hash)) = (iterate db (encodeFieldKey key []) \<noteq> []))"

section \<open>The store as a finite map\<close>

lemma map_of_put: "map_of (put k v db) = (map_of db)(k \<mapsto> v)"
  by (induction db) (auto simp: fun_eq_iff)

lemma map_of_delete: "map_of (delete db ks) k = (if k \<in> set ks then None else map_of db k)"
  unfolding delete_def by (induction db) auto

lemma map_of_write_batch: "map_of (write_batch ops db) = map_of db ++ map_of (rev ops)"
  unfolding write_batch_def
  by (induction ops arbitrary: db) (auto simp: map_of_put fun_eq_iff map_add_def split: option.splits)

lemma put_others: "filter (\<lambda>e. fst e \<noteq> k) (put k v db) = filter (\<lambda>e. fst e \<noteq> k) db"
  by (induction db) auto

lemma put_fresh: "k \<notin> fst ` set db \<Longrightarrow> set (put k v db) = insert (k, v) (set db)"
  by (induction db) (auto split: if_splits)

lemma keys_put: "fst ` set (put k v db) = insert k (fst ` set db)"
  by (simp add: dom_map_of_conv_image_fst [symmetric] map_of_put)

lemma iterate_empty: "iterate db p = [] \<longleftrightarrow> (\<forall>k \<in> fst ` set db. \<not> prefix p k)"
  unfolding iterate_def by (auto simp: filter_empty_conv)

lemma sorted_put: "sorted_store db \<Longrightarrow> sorted_store (put k v db)"
  unfolding sorted_store_def
proof (induction db)
  case Nil
  then show ?case by simp
next
  case (Cons e db)
  obtain k' v' where e: "e = (k', v')" by (cases e)
  from Cons.prems have hd: "\<forall>x \<in> set db. k' < fst x" and tl: "sorted_wrt (<) (map fst db)"
    by (auto simp: e)
  have ih: "sorted_wrt (<) (map fst (put k v db))" using Cons.IH tl by simp
  show ?case
  proof (cases "k = k'")
    case True
    then show ?thesis using hd tl by (simp add: e)
  next
    case ne: False
    show ?thesis
    proof (cases "k < k'")
      case True
      then show ?thesis using hd tl ne by (auto simp: e)
    next
      case False
      then have "k' < k" using ne by simp
      moreover have "\<forall>x \<in> set (put k v db). fst x = k \<or> x \<in> set db"
      proof
        fix x assume x: "x \<in> set (put k v db)"
        show "fst x = k \<or> x \<in> set db"
        proof (cases "fst x = k")
          case False
          then have "x \<in> set (filter (\<lambda>e. fst e \<noteq> k) (put k v db))" using x by simp
          then show ?thesis by (simp add: put_others)
        qed simp
      qed
      ultimately have "\<forall>x \<in> set (put k v db). k' < fst x" using hd by auto
      then show ?thesis using ih ne False by (simp add: e)
    qed
  qed
qed

lemma sorted_delete: "sorted_store db \<Longrightarrow> sorted_store (delete db ks)"
  unfolding sorted_store_def delete_def
  by (induction db) auto

lemma map_of_map_set: "map_of (map_set k v m) = (map_of m)(k \<mapsto> v)"
  by (induction m) (auto simp: fun_eq_iff)

lemma keys_map_set: "fst ` set (map_set k v m) = insert k (fst ` set m)"
  by (simp add: dom_map_of_conv_image_fst [symmetric] map_of_map_set)

lemma distinct_map_set: "distinct (map fst m) \<Longrightarrow> distinct (map fst (map_set k v m))"
  by (induction m) (auto simp: keys_map_set image_iff split: if_splits)

section \<open>The key encoding\<close>

lemma prefixes_differ: "MetaPrefix \<noteq> ValuePrefix"
  by (simp add: MetaPrefix_def ValuePrefix_def)

lemma meta_key_inj [simp]: "encodeMetaKey k = encodeMetaKey k' \<longleftrightarrow> k = k'"
  by (simp add: encodeMetaKey_def)

lemma meta_key_not_field [simp]:
  "encodeMetaKey k \<noteq> encodeFieldKey k' f" "encodeFieldKey k' f \<noteq> encodeMetaKey k"
  using prefixes_differ by (auto simp: encodeMetaKey_def encodeFieldKey_def)

lemma field_key_inj [simp]: "encodeFieldKey k f = encodeFieldKey k f' \<longleftrightarrow> f = f'"
  by (simp add: encodeFieldKey_def)

lemma field_key_prefix [simp]: "prefix (encodeFieldKey k []) (encodeFieldKey k f)"
  by (simp add: encodeFieldKey_def)

lemma meta_key_no_prefix [simp]: "\<not> prefix (encodeFieldKey k []) (encodeMetaKey k')"
  using prefixes_differ by (auto simp: encodeMetaKey_def encodeFieldKey_def)

lemma sep_split_unique:
  assumes "CHR ''|'' \<notin> set k" "CHR ''|'' \<notin> set k'" "k @ CHR ''|'' # r = k' @ CHR ''|'' # r'"
  shows "k = k'"
  using assms
proof (induction k arbitrary: k')
  case Nil
  then show ?case by (cases k') auto
next
  case (Cons a k)
  then show ?case by (cases k') auto
qed

lemma field_prefix_same_key:
  assumes "sep_free k" "sep_free k'" "prefix (encodeFieldKey k []) (encodeFieldKey k' f)"
  shows "k = k'"
proof -
  from assms(3) obtain r where "k' @ CHR ''|'' # f = k @ CHR ''|'' # r"
    by (auto simp: encodeFieldKey_def prefix_def Seperator_def)
  then show ?thesis using assms(1,2) sep_split_unique [of k k' r f] by (simp add: sep_free_def)
qed

lemma IndexByte_sep_free:
  "c \<notin> set k \<Longrightarrow> IndexByte (k @ c # r) c = int (length k)"
  by (induction k) (auto simp: Let_def)

lemma field_of_field_key: "sep_free k \<Longrightarrow> field_of_key (encodeFieldKey k f) = f"
  using IndexByte_sep_free [of "CHR ''|''" k f]
  by (simp add: field_of_key_def encodeFieldKey_def sep_free_def ValuePrefix_def Seperator_def Let_def nat_add_distrib)

section \<open>Reading and writing hashes\<close>

lemma GetFields_single: "GetFields db k [f] = [(f, get db (encodeFieldKey k f))]"
  by (simp add: GetFields_def)

lemma map_get_single [simp]: "map_get [(f, x)] f = x"
  by (simp add: map_get_def)

lemma map_of_field_entries:
  "map_of (map (\<lambda>(f, v). (encodeFieldKey k f, v)) xs) (encodeFieldKey k f) = map_of xs f"
  by (induction xs) auto

lemma map_of_field_entries_other:
  "\<forall>f. x \<noteq> encodeFieldKey k f \<Longrightarrow> map_of (map (\<lambda>(f, v). (encodeFieldKey k f, v)) xs) x = None"
  by (induction xs) auto

lemma map_of_PutHash_meta: "map_of (PutHash db k t hash) (encodeMetaKey k) = Some [t]"
  by (simp add: PutHash_def map_of_write_batch map_add_def encodeMetadata_def
      map_of_field_entries_other rev_map split: option.splits)

lemma map_of_PutHash_field:
  "map_of (PutHash db k t hash) (encodeFieldKey k f) =
     (case map_of (rev hash) f of None \<Rightarrow> map_of db (encodeFieldKey k f) | Some v \<Rightarrow> Some v)"
  by (simp add: PutHash_def map_of_write_batch map_add_def map_of_field_entries
      rev_map split: option.splits)

lemma map_of_PutHash_other:
  "x \<noteq> encodeMetaKey k \<Longrightarrow> \<forall>f. x \<noteq> encodeFieldKey k f \<Longrightarrow>
   map_of (PutHash db k t hash) x = map_of db x"
  by (simp add: PutHash_def map_of_write_batch map_add_def map_of_field_entries_other
      rev_map split: option.splits)

lemma Has_PutHash_same: "Has (PutHash db k t hash) k = (True, t)"
  by (simp add: Has_def map_of_PutHash_meta)

lemma Has_PutHash_other: "k' \<noteq> k \<Longrightarrow> Has (PutHash db k t hash) k' = Has db k'"
  by (simp add: Has_def map_of_PutHash_other)

lemma get_PutHash_field:
  "get (PutHash db k t hash) (encodeFieldKey k f) =
     (case map_of (rev hash) f of None \<Rightarrow> get db (encodeFieldKey k f) | Some v \<Rightarrow> v)"
  by (simp add: get_def map_of_PutHash_field split: option.splits)

lemma hset_result:
  assumes "\<not> wrong_type db k"
  shows "hset [k, f, v] db =
           Reply (if get db (encodeFieldKey k f) = [] then OneInteger else ZeroInteger)
             (PutHash db k Hash [(f, v)])"
  using assms
  by (auto simp: hset_def arg_def wrong_type_def GetFields_single Let_def split: prod.splits)

section \<open>What the single-field handlers compute\<close>

lemma hset_wrong_type: "wrong_type db k \<Longrightarrow> hset (k # rest) db = Reply (Error ErrWrongType) db"
  by (auto simp: hset_def arg_def wrong_type_def split: prod.splits)

lemma hmset_loop_single: "hmset_loop [k, f, v] 1 [] = Some [(f, v)]"
  by (subst hmset_loop.simps, simp, subst hmset_loop.simps, simp)

lemma hmset_single:
  "hmset [k, f, v] db =
     (if wrong_type db k then Reply (Error ErrWrongType) db
      else Reply OkSimpleString (PutHash db k Hash [(f, v)]))"
  using hmset_loop_single [of k f v]
  by (auto simp: hmset_def arg_def wrong_type_def split: prod.splits)

lemma hexists_result:
  "\<not> wrong_type db k \<Longrightarrow>
   hexists [k, f] db =
     Reply (if get db (encodeFieldKey k f) = [] then ZeroInteger else OneInteger) db"
  by (auto simp: hexists_def arg_def wrong_type_def GetFields_single split: prod.splits)

lemma hget_result:
  "Has db k = (True, Hash) \<Longrightarrow>
   hget [k, f] db =
     Reply (if get db (encodeFieldKey k f) = [] then NilBulkString
            else BulkString (get db (encodeFieldKey k f))) db"
  by (auto simp: hget_def arg_def GetFields_single)

lemma hstrlen_result:
  "Has db k = (True, Hash) \<Longrightarrow>
   hstrlen [k, f] db = Reply (Integer (int (length (get db (encodeFieldKey k f))))) db"
  by (auto simp: hstrlen_def arg_def GetFields_single)

lemma hsetnx_result:
  "\<not> wrong_type db k \<Longrightarrow>
   hsetnx [k, f, v] db =
     (if get db (encodeFieldKey k f) = [] then Reply OneInteger (PutHash db k Hash [(f, v)])
      else Reply ZeroInteger db)"
  by (auto simp: hsetnx_def arg_def wrong_type_def GetFields_single Let_def split: prod.splits)

lemma wrong_type_PutHash [simp]: "\<not> wrong_type (PutHash db k Hash hash) k"
  by (simp add: wrong_type_def Has_PutHash_same)

section \<open>Empty values and repeated writes\<close>

text \<open>
  C6, as stated, fails when the first value is empty: the stored empty value reads as an
  absent field, and the second \<^verbatim>\<open>hset\<close> replies 1 again.
\<close>

theorem set_twice_counterexample:
  "hset [''k'', ''f'', ''''] [] = Reply OneInteger [(''+k'', [Hash]), (''-k|f'', '''')] \<and>
   hset [''k'', ''f'', ''v2''] [(''+k'', [Hash]), (''-k|f'', '''')] =
     Reply OneInteger [(''+k'', [Hash]), (''-k|f'', ''v2'')]"
  by code_simp

text \<open>
  C6, amended. For a key that is absent or holds a hash, \<^verbatim>\<open>hset\<close> replies 1 when the
  field has no non-empty stored value and 0 otherwise, and stores the value either way.
  When the first value \<open>v\<close> is not empty, a second \<^verbatim>\<open>hset\<close> of the same field replies
  0, and \<^verbatim>\<open>hget\<close> then replies the second value \<open>v2\<close> (the nil bulk string when
  \<open>v2\<close> is empty). So on a field without a non-empty value and with non-empty \<open>v\<close>
  and \<open>v2\<close> the replies are 1, 0 and \<open>v2\<close>.
\<close>

theorem set_twice:
  assumes "\<not> wrong_type db k"
  shows "\<exists>db1. hset [k, f, v] db =
             Reply (if get db (encodeFieldKey k f) = [] then OneInteger else ZeroInteger) db1 \<and>
           map_of db1 (encodeFieldKey k f) = Some v \<and>
           (v \<noteq> [] \<longrightarrow>
             (\<exists>db2. hset [k, f, v2] db1 = Reply ZeroInteger db2 \<and>
               map_of db2 (encodeFieldKey k f) = Some v2 \<and>
               hget [k, f] db2 =
                 Reply (if v2 = [] then NilBulkString else BulkString v2) db2))"
proof -
  let ?db1 = "PutHash db k Hash [(f, v)]"
  let ?db2 = "PutHash ?db1 k Hash [(f, v2)]"
  have first: "hset [k, f, v] db =
      Reply (if get db (encodeFieldKey k f) = [] then OneInteger else ZeroInteger) ?db1"
    using assms by (rule hset_result)
  have stored1: "map_of ?db1 (encodeFieldKey k f) = Some v"
    by (simp add: map_of_PutHash_field)
  have second: "hset [k, f, v2] ?db1 = Reply ZeroInteger ?db2" if "v \<noteq> []"
    using that by (simp add: hset_result get_PutHash_field)
  have stored2: "map_of ?db2 (encodeFieldKey k f) = Some v2"
    by (simp add: map_of_PutHash_field)
  have third: "hget [k, f] ?db2 = Reply (if v2 = [] then NilBulkString else BulkString v2) ?db2"
    by (simp add: hget_result Has_PutHash_same get_PutHash_field)
  show ?thesis
    using first stored1 second stored2 third by blast
qed

theorem set_twice_witness:
  "\<not> wrong_type [] ''k'' \<and>
   (\<exists>db1. hset [''k'', ''f'', ''v''] [] = Reply OneInteger db1 \<and>
      (\<exists>db2. hset [''k'', ''f'', ''w''] db1 = Reply ZeroInteger db2 \<and>
         hget [''k'', ''f''] db2 = Reply (BulkString ''w'') db2))"
proof -
  have h: "\<not> wrong_type [] ''k''"
    by (simp add: wrong_type_def Has_def)
  have e: "get [] (encodeFieldKey ''k'' ''f'') = []"
    by (simp add: get_def)
  show ?thesis
    using h e set_twice [OF h, of "''f''" "''v''" "''w''"] by auto
qed

section \<open>Decimal conversion\<close>

lemma digit_cases: "0 \<le> d \<Longrightarrow> d < 10 \<Longrightarrow> d \<in> {0, 1, 2, 3, 4, 5, 6, 7, 8, 9 :: int}"
  by simp presburger

lemma digit_char_values:
  "digit_char 0 = CHR ''0''" "digit_char 1 = CHR ''1''" "digit_char 2 = CHR ''2''"
  "digit_char 3 = CHR ''3''" "digit_char 4 = CHR ''4''" "digit_char 5 = CHR ''5''"
  "digit_char 6 = CHR ''6''" "digit_char 7 = CHR ''7''" "digit_char 8 = CHR ''8''"
  "digit_char 9 = CHR ''9''"
  by code_simp+

lemma is_digit_digit_char: "0 \<le> d \<Longrightarrow> d < 10 \<Longrightarrow> is_digit (digit_char d)"
  using digit_cases [of d] by (auto simp: is_digit_def digit_char_values)

lemma value_digit_char: "0 \<le> d \<Longrightarrow> d < 10 \<Longrightarrow> of_char (digit_char d) - 48 = d"
  by (simp add: digit_char_def)

lemma digits_value_snoc:
  "digits_value (ds @ [c]) = digits_value ds * 10 + (of_char c - 48)"
  by (simp add: digits_value_def)

lemma FormatUint_digits:
  "0 \<le> n \<Longrightarrow>
   FormatUint n \<noteq> [] \<and> list_all is_digit (FormatUint n) \<and> digits_value (FormatUint n) = n"
proof (induction n rule: FormatUint.induct)
  case (1 n)
  show ?case
  proof (cases "n < 10")
    case True
    then show ?thesis
      using "1.prems" is_digit_digit_char [of n] value_digit_char [of n]
      by (simp add: FormatUint.simps [of n] digits_value_def)
  next
    case False
    then have "0 \<le> n div 10" using "1.prems" by simp
    with "1.IH" False
    have ih: "list_all is_digit (FormatUint (n div 10))" "digits_value (FormatUint (n div 10)) = n div 10"
      by simp_all
    have d: "0 \<le> n mod 10" "n mod 10 < 10" by simp_all
    show ?thesis
      using False ih is_digit_digit_char [OF d] value_digit_char [OF d]
      by (simp add: FormatUint.simps [of n] digits_value_snoc)
  qed
qed

lemma is_digit_not_sign: "is_digit c \<Longrightarrow> c \<noteq> CHR ''+'' \<and> c \<noteq> CHR ''-''"
  by (auto simp: is_digit_def)

lemma ParseInt_FormatInt: "ParseInt (FormatInt i) = Some i"
proof (cases "sint i < 0")
  case True
  let ?n = "- sint i"
  have n: "0 \<le> ?n" using True by simp
  have le: "?n \<le> 2 ^ 63" using sint_ge [of i] by simp
  note d = FormatUint_digits [OF n]
  show ?thesis
    using True d le by (simp add: ParseInt_def FormatInt_def Let_def)
next
  case False
  let ?n = "sint i"
  have n: "0 \<le> ?n" using False by simp
  have lt: "?n < 2 ^ 63" using sint_lt [of i] by simp
  note d = FormatUint_digits [OF n]
  obtain c r where cr: "FormatUint ?n = c # r" using d by (cases "FormatUint ?n") auto
  have "is_digit c" using d cr by simp
  then have c: "c \<noteq> CHR ''+''" "c \<noteq> CHR ''-''" using is_digit_not_sign by auto
  show ?thesis
    using False d lt c cr by (simp add: ParseInt_def FormatInt_def Let_def)
qed

section \<open>The integer increment\<close>

lemma hincrby_bad_delta:
  "ParseInt d = None \<Longrightarrow> hincrby [k, f, d] db = Reply (Error ErrNotValidInt) db"
  by (simp add: hincrby_def arg_def)

lemma hincrby_result:
  assumes "ParseInt d = Some by" "\<not> wrong_type db k"
  shows "hincrby [k, f, d] db =
     (if get db (encodeFieldKey k f) = [] then
        Reply (Integer (sint (0 + by))) (PutHash db k Hash [(f, FormatInt (0 + by))])
      else case ParseInt (get db (encodeFieldKey k f)) of
        None \<Rightarrow> Reply (Error ErrNotValidInt) db
      | Some i \<Rightarrow> Reply (Integer (sint (i + by))) (PutHash db k Hash [(f, FormatInt (i + by))]))"
  using assms
  by (auto simp: hincrby_def arg_def wrong_type_def GetFields_single Let_def
      split: prod.splits option.splits)

lemma sint_add_in_range:
  fixes a b :: int64
  assumes "- (2 ^ 63) \<le> sint a + sint b" "sint a + sint b < 2 ^ 63"
  shows "sint (a + b) = sint a + sint b"
  using assms by (simp add: sint_word_ariths signed_take_bit_int_eq_self)

text \<open>
  C4, as stated, fails in two places: the sum is a 64-bit sum and wraps around, and on a
  key of another type the reply is the type error.
\<close>

theorem hincrby_counterexample:
  "hincrby [''k'', ''f'', ''1''] [(''+k'', [Hash]), (''-k|f'', ''9223372036854775807'')] =
     Reply (Integer (- 9223372036854775808))
       [(''+k'', [Hash]), (''-k|f'', ''-9223372036854775808'')] \<and>
   hincrby [''k'', ''f'', ''5''] [(''+k'', [String])] =
     Reply (Error ErrWrongType) [(''+k'', [String])]"
  by code_simp

text \<open>
  C4, amended. \<^verbatim>\<open>hincrby\<close> replies \<^verbatim>\<open>ErrNotValidInt\<close> and leaves the store as it is
  when the delta does not parse as a base-10 signed 64-bit integer, whatever the key. When
  the delta parses and the key is absent or holds a hash: a stored value that is not empty
  and does not parse gives \<^verbatim>\<open>ErrNotValidInt\<close> with the store unchanged; otherwise the
  current value \<open>i\<close> is 0 for an absent or empty value and the parsed value else, the
  new value is the 64-bit sum \<open>i + by\<close> (which wraps around, and is the sum of the two
  integers whenever that lies in the 64-bit range), its decimal string is stored under the
  field and parses back to it, and the reply is the new integer.
\<close>

theorem hincrby_spec:
  "(ParseInt d = None \<longrightarrow> hincrby [k, f, d] db = Reply (Error ErrNotValidInt) db) \<and>
   (\<forall>by. ParseInt d = Some by \<and> \<not> wrong_type db k \<longrightarrow>
      (get db (encodeFieldKey k f) \<noteq> [] \<and> ParseInt (get db (encodeFieldKey k f)) = None \<longrightarrow>
         hincrby [k, f, d] db = Reply (Error ErrNotValidInt) db) \<and>
      (\<forall>i. (if get db (encodeFieldKey k f) = [] then i = 0
             else ParseInt (get db (encodeFieldKey k f)) = Some i) \<longrightarrow>
         (\<exists>db'. hincrby [k, f, d] db = Reply (Integer (sint (i + by))) db' \<and>
            map_of db' (encodeFieldKey k f) = Some (FormatInt (i + by)) \<and>
            ParseInt (FormatInt (i + by)) = Some (i + by) \<and>
            (- (2 ^ 63) \<le> sint i + sint by \<and> sint i + sint by < 2 ^ 63 \<longrightarrow>
               sint (i + by) = sint i + sint by))))"
proof (intro conjI allI impI)
  assume "ParseInt d = None"
  then show "hincrby [k, f, d] db = Reply (Error ErrNotValidInt) db"
    by (rule hincrby_bad_delta)
next
  fix "by"
  assume a: "ParseInt d = Some by \<and> \<not> wrong_type db k"
  assume "get db (encodeFieldKey k f) \<noteq> [] \<and> ParseInt (get db (encodeFieldKey k f)) = None"
  then show "hincrby [k, f, d] db = Reply (Error ErrNotValidInt) db"
    using a by (simp add: hincrby_result)
next
  fix "by" i
  assume a: "ParseInt d = Some by \<and> \<not> wrong_type db k"
  assume c: "if get db (encodeFieldKey k f) = [] then i = 0
             else ParseInt (get db (encodeFieldKey k f)) = Some i"
  let ?db' = "PutHash db k Hash [(f, FormatInt (i + by))]"
  have run: "hincrby [k, f, d] db = Reply (Integer (sint (i + by))) ?db'"
    using a c by (auto simp: hincrby_result split: if_splits)
  have stored: "map_of ?db' (encodeFieldKey k f) = Some (FormatInt (i + by))"
    by (simp add: map_of_PutHash_field)
  have range: "- (2 ^ 63) \<le> sint i + sint by \<and> sint i + sint by < 2 ^ 63 \<longrightarrow>
      sint (i + by) = sint i + sint by"
    using sint_add_in_range [of i "by"] by simp
  show "\<exists>db'. hincrby [k, f, d] db = Reply (Integer (sint (i + by))) db' \<and>
      map_of db' (encodeFieldKey k f) = Some (FormatInt (i + by)) \<and>
      ParseInt (FormatInt (i + by)) = Some (i + by) \<and>
      (- (2 ^ 63) \<le> sint i + sint by \<and> sint i + sint by < 2 ^ 63 \<longrightarrow>
         sint (i + by) = sint i + sint by)"
    using run stored range ParseInt_FormatInt by blast
qed

theorem hincrby_spec_witness:
  "(\<exists>db'. hincrby [''k'', ''f'', ''5''] [] = Reply (Integer 5) db' \<and>
      map_of db' (encodeFieldKey ''k'' ''f'') = Some ''5'') \<and>
   (\<exists>db'. hincrby [''k'', ''f'', ''-2''] [(''+k'', [Hash]), (''-k|f'', ''5'')] = Reply (Integer 3) db' \<and>
      map_of db' (encodeFieldKey ''k'' ''f'') = Some ''3'') \<and>
   hincrby [''k'', ''f'', ''1''] [(''+k'', [Hash]), (''-k|f'', ''abc'')] =
     Reply (Error ErrNotValidInt) [(''+k'', [Hash]), (''-k|f'', ''abc'')] \<and>
   hincrby [''k'', ''f'', ''x''] [] = Reply (Error ErrNotValidInt) []"
proof -
  let ?db = "[(''+k'', [Hash]), (''-k|f'', ''5'')]"
  let ?abc = "[(''+k'', [Hash]), (''-k|f'', ''abc'')]"
  have p5: "ParseInt ''5'' = Some 5" and pm2: "ParseInt ''-2'' = Some (- 2)"
    and p1: "ParseInt ''1'' = Some 1" and px: "ParseInt ''x'' = None"
    and pabc: "ParseInt ''abc'' = None"
    by code_simp+
  have f5: "FormatInt 5 = ''5''" and f3: "FormatInt 3 = ''3''"
    by code_simp+
  have t0: "\<not> wrong_type [] ''k''" and t1: "\<not> wrong_type ?db ''k''"
    and t2: "\<not> wrong_type ?abc ''k''"
    by (simp_all add: wrong_type_def Has_def encodeMetaKey_def MetaPrefix_def)
  have g0: "get [] (encodeFieldKey ''k'' ''f'') = []"
    and g1: "get ?db (encodeFieldKey ''k'' ''f'') = ''5''"
    and g2: "get ?abc (encodeFieldKey ''k'' ''f'') = ''abc''"
    by (simp_all add: get_def encodeFieldKey_def ValuePrefix_def Seperator_def)
  have a: "\<exists>db'. hincrby [''k'', ''f'', ''5''] [] = Reply (Integer 5) db' \<and>
      map_of db' (encodeFieldKey ''k'' ''f'') = Some ''5''"
    using hincrby_spec [of "''5''" "''k''" "''f''" "[]"] p5 t0 g0 f5 by auto
  have b: "\<exists>db'. hincrby [''k'', ''f'', ''-2''] ?db = Reply (Integer 3) db' \<and>
      map_of db' (encodeFieldKey ''k'' ''f'') = Some ''3''"
    using hincrby_spec [of "''-2''" "''k''" "''f''" ?db] pm2 t1 g1 p5 f3 by auto
  have c: "hincrby [''k'', ''f'', ''1''] ?abc = Reply (Error ErrNotValidInt) ?abc"
    using hincrby_spec [of "''1''" "''k''" "''f''" ?abc] p1 t2 g2 pabc by auto
  have d: "hincrby [''k'', ''f'', ''x''] [] = Reply (Error ErrNotValidInt) []"
    using hincrby_spec [of "''x''" "''k''" "''f''" "[]"] px by auto
  show ?thesis using a b c d by blast
qed

section \<open>The loop of the multi-set command\<close>

lemma length_pair_args [simp]: "length (pair_args ps) = 2 * length ps"
  by (induction ps) auto

lemma hmset_loop_drop:
  "drop i v = pair_args ps \<Longrightarrow> i \<le> length v \<Longrightarrow>
   hmset_loop v i hash = Some (fold (\<lambda>(f, x). map_set f x) ps hash)"
proof (induction ps arbitrary: i hash)
  case Nil
  then have "\<not> i < length v" by simp
  then show ?case by (subst hmset_loop.simps) simp
next
  case (Cons p ps)
  obtain f x where p: "p = (f, x)" by (cases p)
  from Cons.prems p have d: "drop i v = f # x # pair_args ps" by simp
  have len: "length v - i = 2 + 2 * length ps"
    using arg_cong [OF d, of length] by simp
  then have lt: "i + 1 < length v" by simp
  have vi: "v ! i = f" and vi1: "v ! (i + 1) = x"
    using d lt nth_via_drop [of i v f] 
    by (auto simp: nth_via_drop dest: arg_cong [where f = "\<lambda>l. l ! 1"])
  have d2: "drop (i + 2) v = pair_args ps"
    using d by (metis add.commute drop_drop drop_Suc_Cons drop0 numeral_2_eq_2)
  have "hmset_loop v (i + 2) (map_set f x hash) =
      Some (fold (\<lambda>(f, x). map_set f x) ps (map_set f x hash))"
    using Cons.IH [OF d2] lt by simp
  then show ?case
    using lt vi vi1 p by (subst hmset_loop.simps) simp
qed

lemma hmset_loop_pairs:
  "hmset_loop (k # pair_args ps) 1 [] = Some (fold (\<lambda>(f, x). map_set f x) ps [])"
  using hmset_loop_drop [of 1 "k # pair_args ps" ps "[]"] by simp

lemma map_of_fold_map_set:
  "map_of (fold (\<lambda>(f, x). map_set f x) ps hash) = map_of hash ++ map_of (rev ps)"
  by (induction ps arbitrary: hash) (auto simp: map_of_map_set fun_eq_iff map_add_def split: option.splits)

lemma distinct_fold_map_set:
  "distinct (map fst hash) \<Longrightarrow> distinct (map fst (fold (\<lambda>(f, x). map_set f x) ps hash))"
  by (induction ps arbitrary: hash) (auto simp: distinct_map_set)

lemma odd_args_are_pairs:
  "odd (length v) \<Longrightarrow> \<exists>k ps. v = k # pair_args ps"
proof (induction v rule: length_induct)
  case (1 v)
  show ?case
  proof (cases v)
    case Nil
    with "1.prems" show ?thesis by simp
  next
    case (Cons k r)
    show ?thesis
    proof (cases r)
      case Nil
      then have "v = k # pair_args []" using Cons by simp
      then show ?thesis by blast
    next
      case (Cons f r')
      then obtain x r'' where r': "r' = x # r''"
        using "1.prems" \<open>v = k # r\<close> by (cases r') auto
      have "odd (length (k # r''))" using "1.prems" \<open>v = k # r\<close> Cons r' by simp
      moreover have "length (k # r'') < length v" using \<open>v = k # r\<close> Cons r' by simp
      ultimately obtain k' ps where "k # r'' = k' # pair_args ps" using "1.IH" by blast
      then have "v = k # pair_args ((f, x) # ps)" using \<open>v = k # r\<close> Cons r' by simp
      then show ?thesis by blast
    qed
  qed
qed

lemma map_of_rev_distinct: "distinct (map fst xs) \<Longrightarrow> map_of (rev xs) = map_of xs"
proof (induction xs)
  case Nil
  then show ?case by simp
next
  case (Cons p xs)
  obtain a b where p: "p = (a, b)" by (cases p)
  from Cons.prems p have "a \<notin> fst ` set xs" by simp
  then have none: "map_of (rev xs) a = None" by (simp add: map_of_eq_None_iff)
  have ih: "map_of (rev xs) = map_of xs" using Cons by simp
  show ?case
    using none by (auto simp: p ih [symmetric] fun_eq_iff map_add_def split: option.splits)
qed

lemma hmset_pairs:
  assumes "ps \<noteq> []"
  shows "hmset (k # pair_args ps) db =
     (if wrong_type db k then Reply (Error ErrWrongType) db
      else Reply OkSimpleString
        (PutHash db k Hash (fold (\<lambda>(f, x). map_set f x) ps [])))"
proof -
  have len: "\<not> (length (k # pair_args ps) \<le> 1 \<or> length (k # pair_args ps) mod 2 \<noteq> 1)"
    using assms by (cases ps) auto
  show ?thesis
    unfolding hmset_def using len hmset_loop_pairs [of k ps]
    by (auto simp: arg_def wrong_type_def split: prod.splits)
qed

lemma hmset_wrong_number:
  "length v \<le> 1 \<or> even (length v) \<Longrightarrow>
   hmset v db = Reply (Error (ErrFmtWrongNumberArgument ''hmset'')) db"
  by (auto simp: hmset_def even_iff_mod_2_eq_zero)

text \<open>
  C7, as stated, fails for the argument list that holds the key alone: its length 1 is
  odd and the reply is the argument-count error. And with an odd count the reply is not
  always OK: on a key of another type it is the type error.
\<close>

theorem hmset_counterexample:
  "odd (length [''k'']) \<and>
   hmset [''k''] [] = Reply (Error (ErrFmtWrongNumberArgument ''hmset'')) [] \<and>
   odd (length [''k'', ''f'', ''v'']) \<and>
   hmset [''k'', ''f'', ''v''] [(''+k'', [String])] =
     Reply (Error ErrWrongType) [(''+k'', [String])]"
  by code_simp

text \<open>
  C7, amended. \<^verbatim>\<open>hmset\<close> replies the argument-count error, naming \<^verbatim>\<open>hmset\<close>, exactly
  when its argument count is at most 1 or even. With the key and one or more field/value
  pairs, it replies the type error and leaves the store alone when the key holds another
  type; otherwise it replies OK, and the store then has the metadata entry of the hash
  type for the key, every given field with the value given last for it, and all other
  entries as before.
\<close>

theorem hmset_spec:
  "(hmset v db = Reply (Error (ErrFmtWrongNumberArgument ''hmset'')) db \<longleftrightarrow>
      length v \<le> 1 \<or> even (length v)) \<and>
   (\<forall>k ps. v = k # pair_args ps \<and> ps \<noteq> [] \<and> wrong_type db k \<longrightarrow>
      hmset v db = Reply (Error ErrWrongType) db) \<and>
   (\<forall>k ps. v = k # pair_args ps \<and> ps \<noteq> [] \<and> \<not> wrong_type db k \<longrightarrow>
      (\<exists>db'. hmset v db = Reply OkSimpleString db' \<and>
         Has db' k = (True, Hash) \<and>
         (\<forall>f x. map_of (rev ps) f = Some x \<longrightarrow> map_of db' (encodeFieldKey k f) = Some x) \<and>
         (\<forall>y. y \<noteq> encodeMetaKey k \<and> (\<forall>f. y \<noteq> encodeFieldKey k f) \<longrightarrow>
            map_of db' y = map_of db y) \<and>
         (\<forall>f. f \<notin> fst ` set ps \<longrightarrow>
            map_of db' (encodeFieldKey k f) = map_of db (encodeFieldKey k f))))"
proof (intro conjI allI impI)
  show "hmset v db = Reply (Error (ErrFmtWrongNumberArgument ''hmset'')) db \<longleftrightarrow>
      length v \<le> 1 \<or> even (length v)"
  proof
    assume r: "hmset v db = Reply (Error (ErrFmtWrongNumberArgument ''hmset'')) db"
    show "length v \<le> 1 \<or> even (length v)"
    proof (rule ccontr)
      assume n: "\<not> (length v \<le> 1 \<or> even (length v))"
      then obtain k ps where v: "v = k # pair_args ps"
        using odd_args_are_pairs [of v] by auto
      with n have "ps \<noteq> []" by auto
      then show False using r v hmset_pairs [of ps k db] by (auto split: if_splits)
    qed
  qed (rule hmset_wrong_number)
next
  fix k ps
  assume "v = k # pair_args ps \<and> ps \<noteq> [] \<and> wrong_type db k"
  then show "hmset v db = Reply (Error ErrWrongType) db"
    by (simp add: hmset_pairs)
next
  fix k ps
  assume a: "v = k # pair_args ps \<and> ps \<noteq> [] \<and> \<not> wrong_type db k"
  let ?hash = "fold (\<lambda>(f, x). map_set f x) ps []"
  let ?db' = "PutHash db k Hash ?hash"
  have hash: "map_of ?hash = map_of (rev ps)"
    by (simp add: map_of_fold_map_set)
  have dist: "distinct (map fst ?hash)"
    by (simp add: distinct_fold_map_set)
  then have rev_hash: "map_of (rev ?hash) = map_of ?hash"
    by (rule map_of_rev_distinct)
  have run: "hmset v db = Reply OkSimpleString ?db'"
    using a by (simp add: hmset_pairs)
  have has: "Has ?db' k = (True, Hash)"
    by (rule Has_PutHash_same)
  have written: "\<forall>f x. map_of (rev ps) f = Some x \<longrightarrow> map_of ?db' (encodeFieldKey k f) = Some x"
    by (simp add: map_of_PutHash_field rev_hash hash)
  have others: "\<forall>y. y \<noteq> encodeMetaKey k \<and> (\<forall>f. y \<noteq> encodeFieldKey k f) \<longrightarrow>
      map_of ?db' y = map_of db y"
    by (simp add: map_of_PutHash_other)
  have "map_of (rev ps) f = None" if "f \<notin> fst ` set ps" for f
    using that by (simp add: map_of_eq_None_iff)
  then have kept: "\<forall>f. f \<notin> fst ` set ps \<longrightarrow>
      map_of ?db' (encodeFieldKey k f) = map_of db (encodeFieldKey k f)"
    by (simp add: map_of_PutHash_field rev_hash hash)
  show "\<exists>db'. hmset v db = Reply OkSimpleString db' \<and>
         Has db' k = (True, Hash) \<and>
         (\<forall>f x. map_of (rev ps) f = Some x \<longrightarrow> map_of db' (encodeFieldKey k f) = Some x) \<and>
         (\<forall>y. y \<noteq> encodeMetaKey k \<and> (\<forall>f. y \<noteq> encodeFieldKey k f) \<longrightarrow>
            map_of db' y = map_of db y) \<and>
         (\<forall>f. f \<notin> fst ` set ps \<longrightarrow>
            map_of db' (encodeFieldKey k f) = map_of db (encodeFieldKey k f))"
    using run has written others kept by blast
qed

theorem hmset_spec_witness:
  "\<not> wrong_type [] ''k'' \<and>
   (\<exists>db'. hmset [''k'', ''f'', ''v'', ''g'', ''w'', ''f'', ''u''] [] = Reply OkSimpleString db' \<and>
      Has db' ''k'' = (True, Hash) \<and>
      map_of db' (encodeFieldKey ''k'' ''f'') = Some ''u'' \<and>
      map_of db' (encodeFieldKey ''k'' ''g'') = Some ''w'') \<and>
   hmset [''k'', ''f''] [] = Reply (Error (ErrFmtWrongNumberArgument ''hmset'')) []"
proof -
  let ?ps = "[(''f'', ''v''), (''g'', ''w''), (''f'', ''u'')]"
  let ?v = "[''k'', ''f'', ''v'', ''g'', ''w'', ''f'', ''u'']"
  have t: "\<not> wrong_type [] ''k''"
    by (simp add: wrong_type_def Has_def)
  have pre: "?v = ''k'' # pair_args ?ps \<and> ?ps \<noteq> [] \<and> \<not> wrong_type [] ''k''"
    using t by simp
  have m: "map_of (rev ?ps) ''f'' = Some ''u''" "map_of (rev ?ps) ''g'' = Some ''w''"
    by simp_all
  note ok = hmset_spec [of ?v "[]", THEN conjunct2, THEN conjunct2, rule_format, OF pre]
  then obtain db' where all:
    "hmset ?v [] = Reply OkSimpleString db' \<and>
     Has db' ''k'' = (True, Hash) \<and>
     (\<forall>f x. map_of (rev ?ps) f = Some x \<longrightarrow> map_of db' (encodeFieldKey ''k'' f) = Some x) \<and>
     (\<forall>y. y \<noteq> encodeMetaKey ''k'' \<and> (\<forall>f. y \<noteq> encodeFieldKey ''k'' f) \<longrightarrow>
        map_of db' y = map_of [] y) \<and>
     (\<forall>f. f \<notin> fst ` set ?ps \<longrightarrow>
        map_of db' (encodeFieldKey ''k'' f) = map_of [] (encodeFieldKey ''k'' f))" ..
  note r1 = all [THEN conjunct1]
  note r2 = all [THEN conjunct2, THEN conjunct1]
  note r3 = all [THEN conjunct2, THEN conjunct2, THEN conjunct1, rule_format]
  have a: "\<exists>db'. hmset ?v [] = Reply OkSimpleString db' \<and>
      Has db' ''k'' = (True, Hash) \<and>
      map_of db' (encodeFieldKey ''k'' ''f'') = Some ''u'' \<and>
      map_of db' (encodeFieldKey ''k'' ''g'') = Some ''w''"
    by (intro exI [of _ db'] conjI r1 r2 r3 [OF m(1)] r3 [OF m(2)])
  have b: "hmset [''k'', ''f''] [] = Reply (Error (ErrFmtWrongNumberArgument ''hmset'')) []"
    by (rule hmset_spec [of "[''k'', ''f'']" "[]", THEN conjunct1, THEN iffD2]) simp
  show ?thesis
    by (intro conjI t a b)
qed

section \<open>Prefix scans\<close>

lemma iterate_put_other: "\<not> prefix p k \<Longrightarrow> iterate (put k v db) p = iterate db p"
proof -
  assume np: "\<not> prefix p k"
  have "filter (\<lambda>(k', v'). prefix p k') xs =
      filter (\<lambda>(k', v'). prefix p k') (filter (\<lambda>e. fst e \<noteq> k) xs)" for xs :: store
    using np by (induction xs) auto
  from this [of "put k v db"] this [of db] show ?thesis
    by (simp only: iterate_def put_others)
qed

lemma set_iterate: "set (iterate db p) = {e \<in> set db. prefix p (fst e)}"
  by (auto simp: iterate_def)

lemma iterate_put_fresh:
  "prefix p k \<Longrightarrow> k \<notin> fst ` set db \<Longrightarrow>
   set (iterate (put k v db) p) = insert (k, v) (set (iterate db p))"
  by (auto simp: set_iterate put_fresh)

lemma iterate_write_batch_fresh:
  "distinct (map fst ops) \<Longrightarrow> \<forall>k \<in> fst ` set ops. prefix p k \<and> k \<notin> fst ` set db \<Longrightarrow>
   set (iterate (write_batch ops db) p) = set ops \<union> set (iterate db p)"
proof (induction ops arbitrary: db)
  case Nil
  then show ?case by (simp add: write_batch_def)
next
  case (Cons e ops)
  obtain k v where e: "e = (k, v)" by (cases e)
  have k: "prefix p k" "k \<notin> fst ` set db" using Cons.prems(2) e by auto
  have step: "write_batch (e # ops) db = write_batch ops (put k v db)"
    by (simp add: write_batch_def e)
  have "\<forall>k' \<in> fst ` set ops. prefix p k' \<and> k' \<notin> fst ` set (put k v db)"
    using Cons.prems e by (auto simp: keys_put)
  moreover have "distinct (map fst ops)" using Cons.prems(1) by simp
  ultimately have "set (iterate (write_batch ops (put k v db)) p) =
      set ops \<union> set (iterate (put k v db) p)"
    by (rule Cons.IH [rotated])
  then show ?case
    unfolding step using iterate_put_fresh [OF k, of v] by (simp add: e)
qed

lemma field_entries_distinct:
  "distinct (map fst hash) \<Longrightarrow>
   distinct (map fst (map (\<lambda>(f, v). (encodeFieldKey k f, v)) hash))"
  by (induction hash) (auto simp: image_iff)

lemma iterate_PutHash_fresh:
  assumes "distinct (map fst hash)" "iterate db (encodeFieldKey k []) = []"
  shows "set (iterate (PutHash db k t hash) (encodeFieldKey k [])) =
         (\<lambda>(f, v). (encodeFieldKey k f, v)) ` set hash"
proof -
  let ?p = "encodeFieldKey k []"
  let ?ops = "map (\<lambda>(f, v). (encodeFieldKey k f, v)) hash"
  let ?db1 = "put (encodeMetaKey k) (encodeMetadata t) db"
  have i1: "iterate ?db1 ?p = []"
    using assms(2) by (simp add: iterate_put_other)
  have none: "\<forall>x \<in> fst ` set db. \<not> prefix ?p x"
    using assms(2) by (simp add: iterate_empty)
  have fresh: "\<forall>x \<in> fst ` set ?ops. prefix ?p x \<and> x \<notin> fst ` set ?db1"
  proof
    fix x assume "x \<in> fst ` set ?ops"
    then obtain f where x: "x = encodeFieldKey k f" by auto
    then have px: "prefix ?p x" by simp
    then have "x \<notin> fst ` set db" using none by blast
    then show "prefix ?p x \<and> x \<notin> fst ` set ?db1" using px x by (simp add: keys_put)
  qed
  have "set (iterate (write_batch ?ops ?db1) ?p) = set ?ops \<union> set (iterate ?db1 ?p)"
    using field_entries_distinct [OF assms(1)] fresh by (rule iterate_write_batch_fresh)
  then show ?thesis
    by (simp add: PutHash_def write_batch_def i1)
qed

lemma GetHashAsArray_PutHash_fresh:
  assumes "sep_free k" "distinct (map fst hash)" "iterate db (encodeFieldKey k []) = []"
  shows "set (GetHashAsArray (PutHash db k t hash) k) =
         (\<lambda>(f, v). \<lparr>Key = f, Value = v\<rparr>) ` set hash"
proof -
  have "set (GetHashAsArray (PutHash db k t hash) k) =
      (\<lambda>(x, v). \<lparr>Key = field_of_key x, Value = v\<rparr>) `
        (\<lambda>(f, v). (encodeFieldKey k f, v)) ` set hash"
    using iterate_PutHash_fresh [OF assms(2,3)] by (simp add: GetHashAsArray_def)
  also have "\<dots> = (\<lambda>(f, v). \<lparr>Key = f, Value = v\<rparr>) ` set hash"
    using assms(1) by (force simp: field_of_field_key image_iff)
  finally show ?thesis .
qed

lemma hgetall_result:
  "Has db k = (True, Hash) \<Longrightarrow>
   hgetall [k] db =
     Reply (Array (concat (map (\<lambda>field. [BulkString (Key field), BulkString (Value field)])
       (GetHashAsArray db k)))) db"
  by (simp add: hgetall_def arg_def)

text \<open>
  C5, as stated, fails for a record key that holds the separator byte: the field name is
  cut after the first separator of the whole encoded key. It also fails on a key that
  has fields already, which \<^verbatim>\<open>hgetall\<close> returns along with the written ones.
\<close>

theorem hmset_hgetall_counterexample:
  "hmset [''a|b'', ''f'', ''v''] [] =
     Reply OkSimpleString [(''+a|b'', [Hash]), (''-a|b|f'', ''v'')] \<and>
   hgetall [''a|b''] [(''+a|b'', [Hash]), (''-a|b|f'', ''v'')] =
     Reply (Array [BulkString ''b|f'', BulkString ''v''])
       [(''+a|b'', [Hash]), (''-a|b|f'', ''v'')] \<and>
   hmset [''k'', ''g'', ''w''] [(''+k'', [Hash]), (''-k|f'', ''v'')] =
     Reply OkSimpleString [(''+k'', [Hash]), (''-k|f'', ''v''), (''-k|g'', ''w'')] \<and>
   hgetall [''k''] [(''+k'', [Hash]), (''-k|f'', ''v''), (''-k|g'', ''w'')] =
     Reply (Array [BulkString ''f'', BulkString ''v'', BulkString ''g'', BulkString ''w''])
       [(''+k'', [Hash]), (''-k|f'', ''v''), (''-k|g'', ''w'')]"
  by code_simp

text \<open>
  C5, amended. Let the record key \<open>k\<close> be free of the separator byte, absent or a hash,
  and let no entry of the store lie under the field prefix of \<open>k\<close>. After \<^verbatim>\<open>hmset\<close> of
  \<open>k\<close> with one or more field/value pairs \<open>ps\<close>, which replies OK, \<^verbatim>\<open>hgetall\<close> of \<open>k\<close>
  replies the flattened list of pairs \<open>fs\<close> whose set is exactly the written one: each
  given field with the value given last for it; when no field is given twice, the set of
  \<open>ps\<close> itself.
\<close>

theorem hmset_hgetall_roundtrip:
  assumes "sep_free k" and "iterate db (encodeFieldKey k []) = []"
    and "\<not> wrong_type db k" and "ps \<noteq> []"
  shows "\<exists>db' fs. hmset (k # pair_args ps) db = Reply OkSimpleString db' \<and>
           hgetall [k] db' =
             Reply (Array (concat (map (\<lambda>(f, x). [BulkString f, BulkString x]) fs))) db' \<and>
           set fs = {(f, x). map_of (rev ps) f = Some x} \<and>
           (distinct (map fst ps) \<longrightarrow> set fs = set ps)"
proof -
  let ?hash = "fold (\<lambda>(f, x). map_set f x) ps []"
  let ?db' = "PutHash db k Hash ?hash"
  let ?fs = "map (\<lambda>field. (Key field, Value field)) (GetHashAsArray ?db' k)"
  have hash: "map_of ?hash = map_of (rev ps)"
    by (simp add: map_of_fold_map_set)
  have dist: "distinct (map fst ?hash)"
    by (simp add: distinct_fold_map_set)
  have run: "hmset (k # pair_args ps) db = Reply OkSimpleString ?db'"
    using assms(3,4) by (simp add: hmset_pairs)
  have "hgetall [k] ?db' =
      Reply (Array (concat (map (\<lambda>field. [BulkString (Key field), BulkString (Value field)])
        (GetHashAsArray ?db' k)))) ?db'"
    by (rule hgetall_result) (rule Has_PutHash_same)
  then have read: "hgetall [k] ?db' =
      Reply (Array (concat (map (\<lambda>(f, x). [BulkString f, BulkString x]) ?fs))) ?db'"
    by (simp add: comp_def)
  have "set ?fs = (\<lambda>field. (Key field, Value field)) ` (\<lambda>(f, v). \<lparr>Key = f, Value = v\<rparr>) ` set ?hash"
    using GetHashAsArray_PutHash_fresh [OF assms(1) dist assms(2)] by simp
  also have "\<dots> = set ?hash"
    by (force simp: image_iff)
  finally have fs: "set ?fs = set ?hash" .
  have graph: "set ?hash = {(f, x). map_of (rev ps) f = Some x}"
    using map_of_eq_Some_iff [OF dist] hash by auto
  have same: "{(f, x). map_of (rev ps) f = Some x} = set ps" if "distinct (map fst ps)"
    using map_of_eq_Some_iff [OF that] map_of_rev_distinct [OF that] by auto
  show ?thesis
    using run read fs graph same by (intro exI [of _ ?db'] exI [of _ ?fs]) simp
qed

theorem hmset_hgetall_roundtrip_witness:
  "sep_free ''k'' \<and> iterate [] (encodeFieldKey ''k'' []) = [] \<and> \<not> wrong_type [] ''k'' \<and>
   (\<exists>db' fs. hmset [''k'', ''f'', ''v'', ''g'', ''w''] [] = Reply OkSimpleString db' \<and>
      hgetall [''k''] db' =
        Reply (Array (concat (map (\<lambda>(f, x). [BulkString f, BulkString x]) fs))) db' \<and>
      set fs = {(''f'', ''v''), (''g'', ''w'')})"
proof -
  let ?ps = "[(''f'', ''v''), (''g'', ''w'')]"
  have s: "sep_free ''k''"
    by (simp add: sep_free_def)
  have i: "iterate [] (encodeFieldKey ''k'' []) = []"
    by (simp add: iterate_def)
  have t: "\<not> wrong_type [] ''k''"
    by (simp add: wrong_type_def Has_def)
  have n: "?ps \<noteq> []" and d: "distinct (map fst ?ps)"
    by simp_all
  from hmset_hgetall_roundtrip [OF s i t n] obtain db' fs where all:
    "hmset (''k'' # pair_args ?ps) [] = Reply OkSimpleString db' \<and>
     hgetall [''k''] db' =
       Reply (Array (concat (map (\<lambda>(f, x). [BulkString f, BulkString x]) fs))) db' \<and>
     set fs = {(f, x). map_of (rev ?ps) f = Some x} \<and>
     (distinct (map fst ?ps) \<longrightarrow> set fs = set ?ps)"
    by (elim exE)
  note r1 = all [THEN conjunct1]
  note r2 = all [THEN conjunct2, THEN conjunct1]
  note r4 = all [THEN conjunct2, THEN conjunct2, THEN conjunct2, THEN mp, OF d]
  have r1': "hmset [''k'', ''f'', ''v'', ''g'', ''w''] [] = Reply OkSimpleString db'"
    using r1 by simp
  have r4': "set fs = {(''f'', ''v''), (''g'', ''w'')}"
    using r4 by simp
  have "\<exists>db' fs. hmset [''k'', ''f'', ''v'', ''g'', ''w''] [] = Reply OkSimpleString db' \<and>
      hgetall [''k''] db' =
        Reply (Array (concat (map (\<lambda>(f, x). [BulkString f, BulkString x]) fs))) db' \<and>
      set fs = {(''f'', ''v''), (''g'', ''w'')}"
    by (intro exI [of _ db'] exI [of _ fs] conjI r1' r2 r4')
  then show ?thesis
    by (intro conjI s i t)
qed

section \<open>Keys without a metadata entry\<close>

lemma get_empty_if_no_field_entry:
  "iterate db (encodeFieldKey k []) = [] \<Longrightarrow> get db (encodeFieldKey k f) = []"
proof -
  assume "iterate db (encodeFieldKey k []) = []"
  then have "\<forall>x \<in> fst ` set db. \<not> prefix (encodeFieldKey k []) x"
    by (simp only: iterate_empty)
  then have "encodeFieldKey k f \<notin> fst ` set db"
    using field_key_prefix [of k f] by blast
  then have "map_of db (encodeFieldKey k f) = None"
    by (simp add: map_of_eq_None_iff)
  then show ?thesis by (simp add: get_def)
qed

lemma no_metadata_entry: "\<not> fst (Has db k) \<longleftrightarrow> map_of db (encodeMetaKey k) = None"
  by (simp add: Has_def split: option.splits list.splits)

lemma absent_key_readers:
  assumes "\<not> fst (Has db k)"
  shows "hlen (k # rest) db = Reply ZeroInteger db"
    and "hget (k # rest) db = Reply NilBulkString db"
    and "hgetall (k # rest) db = Reply EmptyArray db"
    and "hkeys (k # rest) db = Reply EmptyArray db"
    and "hvals (k # rest) db = Reply EmptyArray db"
    and "hstrlen (k # rest) db = Reply ZeroInteger db"
    and "rest \<noteq> [] \<Longrightarrow> hdel (k # rest) db = Reply ZeroInteger db"
proof -
  obtain t where has: "Has db k = (False, t)"
    using assms by (cases "Has db k") simp
  show "hlen (k # rest) db = Reply ZeroInteger db"
    by (simp add: hlen_def arg_def has)
  show "hget (k # rest) db = Reply NilBulkString db"
    by (simp add: hget_def arg_def has)
  show "hgetall (k # rest) db = Reply EmptyArray db"
    by (simp add: hgetall_def arg_def has)
  show "hkeys (k # rest) db = Reply EmptyArray db"
    by (simp add: hkeys_def arg_def has)
  show "hvals (k # rest) db = Reply EmptyArray db"
    by (simp add: hvals_def arg_def has)
  show "hstrlen (k # rest) db = Reply ZeroInteger db"
    by (simp add: hstrlen_def arg_def has)
  show "hdel (k # rest) db = Reply ZeroInteger db" if "rest \<noteq> []"
    using that by (cases rest) (simp_all add: hdel_def arg_def has)
qed

lemma hexists_no_field_entry:
  assumes "\<not> fst (Has db k)" "iterate db (encodeFieldKey k []) = []"
  shows "hexists (k # f # rest) db = Reply ZeroInteger db"
proof -
  obtain t where has: "Has db k = (False, t)"
    using assms(1) by (cases "Has db k") simp
  show ?thesis
    using get_empty_if_no_field_entry [OF assms(2), of f]
    by (simp add: hexists_def arg_def has GetFields_single)
qed

text \<open>
  C2. A key without metadata entry does not exist, and the commands on it reply their
  empty result without an error and without a change of the store. The handlers
  \<^verbatim>\<open>hlen\<close>, \<^verbatim>\<open>hget\<close>, \<^verbatim>\<open>hgetall\<close>, \<^verbatim>\<open>hstrlen\<close> and \<^verbatim>\<open>hdel\<close> (as \<^verbatim>\<open>hkeys\<close> and
  \<^verbatim>\<open>hvals\<close>) return at once when the key does not exist; \<^verbatim>\<open>hexists\<close> has no such
  branch and answers from the field entry alone. In the store that \<^verbatim>\<open>hset\<close> of field
  \<open>f\<close> of key \<open>a|b\<close> leaves, the key \<open>a\<close> has no metadata entry: its siblings reply 0,
  nil and the empty array, and \<^verbatim>\<open>hexists\<close> of field \<open>b|f\<close> of \<open>a\<close> replies 1.
\<close>

theorem hexists_absent_key_divergence:
  "hset [''a|b'', ''f'', ''v''] [] = Reply OneInteger [(''+a|b'', [Hash]), (''-a|b|f'', ''v'')] \<and>
   map_of [(''+a|b'', [Hash]), (''-a|b|f'', ''v'')] (encodeMetaKey ''a'') = None \<and>
   Has [(''+a|b'', [Hash]), (''-a|b|f'', ''v'')] ''a'' = (False, NoType) \<and>
   hget [''a'', ''b|f''] [(''+a|b'', [Hash]), (''-a|b|f'', ''v'')] =
     Reply NilBulkString [(''+a|b'', [Hash]), (''-a|b|f'', ''v'')] \<and>
   hstrlen [''a'', ''b|f''] [(''+a|b'', [Hash]), (''-a|b|f'', ''v'')] =
     Reply ZeroInteger [(''+a|b'', [Hash]), (''-a|b|f'', ''v'')] \<and>
   hdel [''a'', ''b|f''] [(''+a|b'', [Hash]), (''-a|b|f'', ''v'')] =
     Reply ZeroInteger [(''+a|b'', [Hash]), (''-a|b|f'', ''v'')] \<and>
   hlen [''a''] [(''+a|b'', [Hash]), (''-a|b|f'', ''v'')] =
     Reply ZeroInteger [(''+a|b'', [Hash]), (''-a|b|f'', ''v'')] \<and>
   hgetall [''a''] [(''+a|b'', [Hash]), (''-a|b|f'', ''v'')] =
     Reply EmptyArray [(''+a|b'', [Hash]), (''-a|b|f'', ''v'')] \<and>
   hexists [''a'', ''b|f''] [(''+a|b'', [Hash]), (''-a|b|f'', ''v'')] =
     Reply OneInteger [(''+a|b'', [Hash]), (''-a|b|f'', ''v'')]"
  by code_simp

section \<open>Keys of another type\<close>

lemma wrong_type_Has: "wrong_type db k \<Longrightarrow> \<exists>t. Has db k = (True, t) \<and> t \<noteq> Hash"
  by (cases "Has db k") (simp add: wrong_type_def)

lemma hmset_loop_total:
  "odd (length v) \<Longrightarrow> hmset_loop v 1 [] \<noteq> None"
  using odd_args_are_pairs [of v] hmset_loop_pairs by fastforce

lemma wrong_type_outcome:
  assumes "wrong_type db k"
  shows "handler fl c (k # rest) db = Panic \<or>
         (\<exists>e. handler fl c (k # rest) db = Reply (Error e) db)"
proof -
  obtain t where has: "Has db k = (True, t)" "t \<noteq> Hash"
    using wrong_type_Has [OF assms] by blast
  show ?thesis
  proof (cases c)
    case HDEL
    then show ?thesis using has by (simp add: hdel_def arg_def)
  next
    case HEXISTS
    then show ?thesis using has by (simp add: hexists_def arg_def)
  next
    case HGET
    then show ?thesis using has by (simp add: hget_def arg_def)
  next
    case HGETALL
    then show ?thesis using has by (simp add: hgetall_def arg_def)
  next
    case HINCRBY
    then show ?thesis using has by (simp add: hincrby_def arg_def split: option.splits)
  next
    case HINCRBYFLOAT
    then show ?thesis using has by (simp add: hincrbyfloat_def arg_def split: option.splits)
  next
    case HKEYS
    then show ?thesis using has by (simp add: hkeys_def arg_def)
  next
    case HLEN
    then show ?thesis using has by (simp add: hlen_def arg_def)
  next
    case HMGET
    then show ?thesis using has by (simp add: hmget_def arg_def)
  next
    case HMSET
    then show ?thesis using has by (simp add: hmset_def arg_def)
  next
    case HSET
    then show ?thesis using has by (simp add: hset_def arg_def)
  next
    case HSETNX
    then show ?thesis using has by (simp add: hsetnx_def arg_def)
  next
    case HSTRLEN
    then show ?thesis using has by (simp add: hstrlen_def arg_def)
  next
    case HVALS
    then show ?thesis using has by (simp add: hvals_def arg_def)
  qed
qed

lemma wrong_type_accepted:
  assumes "wrong_type db k" "accepts fl c (k # rest)"
  shows "handler fl c (k # rest) db = Reply (Error ErrWrongType) db"
proof -
  obtain t where has: "Has db k = (True, t)" "t \<noteq> Hash"
    using wrong_type_Has [OF assms(1)] by blast
  show ?thesis
  proof (cases c)
    case HDEL
    then show ?thesis using has assms(2) by (auto simp: hdel_def arg_def)
  next
    case HEXISTS
    then show ?thesis using has by (simp add: hexists_def arg_def)
  next
    case HGET
    then show ?thesis using has by (simp add: hget_def arg_def)
  next
    case HGETALL
    then show ?thesis using has by (simp add: hgetall_def arg_def)
  next
    case HINCRBY
    then show ?thesis using has assms(2)
      by (auto simp: hincrby_def arg_def split: option.splits)
  next
    case HINCRBYFLOAT
    then show ?thesis using has assms(2)
      by (auto simp: hincrbyfloat_def arg_def split: option.splits)
  next
    case HKEYS
    then show ?thesis using has by (simp add: hkeys_def arg_def)
  next
    case HLEN
    then show ?thesis using has by (simp add: hlen_def arg_def)
  next
    case HMGET
    then show ?thesis using has assms(2) by (auto simp: hmget_def arg_def)
  next
    case HMSET
    then show ?thesis using has assms(2)
      by (auto simp: hmset_def arg_def odd_iff_mod_2_eq_one)
  next
    case HSET
    then show ?thesis using has by (simp add: hset_def arg_def)
  next
    case HSETNX
    then show ?thesis using has by (simp add: hsetnx_def arg_def)
  next
    case HSTRLEN
    then show ?thesis using has by (simp add: hstrlen_def arg_def)
  next
    case HVALS
    then show ?thesis using has by (simp add: hvals_def arg_def)
  qed
qed

text \<open>
  C3, as stated, fails for the increments: the delta is parsed before the type of the key
  is looked at, and with a delta that does not parse the reply on a key of another type
  is \<^verbatim>\<open>ErrNotValidInt\<close>. Likewise \<^verbatim>\<open>hdel\<close> without a field replies the
  argument-count error there.
\<close>

theorem wrong_type_counterexample:
  "Has [(''+k'', [String])] ''k'' = (True, String) \<and> String \<noteq> Hash \<and>
   hincrby [''k'', ''f'', ''abc''] [(''+k'', [String])] =
     Reply (Error ErrNotValidInt) [(''+k'', [String])] \<and>
   hdel [''k''] [(''+k'', [String])] =
     Reply (Error (ErrFmtWrongNumberArgument ''hdel'')) [(''+k'', [String])]"
  by code_simp

text \<open>
  C3, amended. On a key whose metadata entry has a type other than the hash type, every
  handler whose arguments pass the checks it makes first (the argument count of \<^verbatim>\<open>hdel\<close>,
  \<^verbatim>\<open>hmget\<close>, \<^verbatim>\<open>hmset\<close>; a delta that parses, for the increments) replies
  \<^verbatim>\<open>ErrWrongType\<close>; and whatever the arguments, a handler that replies at all replies
  an error and leaves the whole store as it is.
\<close>

theorem wrong_type_rejected:
  assumes "wrong_type db k"
  shows "(accepts fl c (k # rest) \<longrightarrow>
            handler fl c (k # rest) db = Reply (Error ErrWrongType) db) \<and>
         (\<forall>r db'. handler fl c (k # rest) db = Reply r db' \<longrightarrow> db' = db \<and> (\<exists>e. r = Error e))"
  using wrong_type_accepted [OF assms, of fl c rest] wrong_type_outcome [OF assms, of fl c rest]
  by auto

theorem wrong_type_rejected_witness:
  "wrong_type [(''+k'', [String])] ''k'' \<and>
   hset [''k'', ''f'', ''v''] [(''+k'', [String])] =
     Reply (Error ErrWrongType) [(''+k'', [String])] \<and>
   hincrby [''k'', ''f'', ''1''] [(''+k'', [String])] =
     Reply (Error ErrWrongType) [(''+k'', [String])]"
proof -
  let ?db = "[(''+k'', [String])]"
  have w: "wrong_type ?db ''k''"
    by (simp add: wrong_type_def Has_def encodeMetaKey_def MetaPrefix_def String_def Hash_def)
  have p: "ParseInt ''1'' \<noteq> None"
    by code_simp
  have a: "hset [''k'', ''f'', ''v''] ?db = Reply (Error ErrWrongType) ?db"
    using wrong_type_rejected [OF w, of whole_numbers HSET "[''f'', ''v'']", THEN conjunct1]
    by simp
  have b: "hincrby [''k'', ''f'', ''1''] ?db = Reply (Error ErrWrongType) ?db"
    using wrong_type_rejected [OF w, of whole_numbers HINCRBY "[''f'', ''1'']", THEN conjunct1] p
    by simp
  show ?thesis
    by (intro conjI w a b)
qed

section \<open>Argument positions\<close>

lemma hmset_no_panic: "hmset v db \<noteq> Panic"
proof (cases "length v \<le> 1 \<or> length v mod 2 \<noteq> 1")
  case True
  then show ?thesis by (simp add: hmset_def)
next
  case False
  then have "odd (length v)" by (simp add: odd_iff_mod_2_eq_one)
  then obtain hash where "hmset_loop v 1 [] = Some hash"
    using hmset_loop_total [of v] by auto
  then show ?thesis
    using False by (auto simp: hmset_def arg_def split: prod.splits)
qed

lemma handler_no_panic:
  assumes "arity c \<le> length v"
  shows "handler fl c v db \<noteq> Panic"
proof (cases c)
  case HDEL
  then show ?thesis by (auto simp: hdel_def arg_def Let_def split: prod.splits)
next
  case HEXISTS
  then show ?thesis using assms by (auto simp: hexists_def arg_def Let_def split: prod.splits)
next
  case HGET
  then show ?thesis using assms by (auto simp: hget_def arg_def Let_def split: prod.splits)
next
  case HGETALL
  then show ?thesis using assms by (auto simp: hgetall_def arg_def Let_def split: prod.splits)
next
  case HINCRBY
  then show ?thesis using assms
    by (auto simp: hincrby_def arg_def Let_def split: prod.splits option.splits)
next
  case HINCRBYFLOAT
  then show ?thesis using assms
    by (auto simp: hincrbyfloat_def arg_def Let_def split: prod.splits option.splits)
next
  case HKEYS
  then show ?thesis using assms by (auto simp: hkeys_def arg_def Let_def split: prod.splits)
next
  case HLEN
  then show ?thesis using assms by (auto simp: hlen_def arg_def Let_def split: prod.splits)
next
  case HMGET
  then show ?thesis by (auto simp: hmget_def arg_def Let_def split: prod.splits)
next
  case HMSET
  then show ?thesis by (simp add: hmset_no_panic)
next
  case HSET
  then show ?thesis using assms by (auto simp: hset_def arg_def Let_def split: prod.splits)
next
  case HSETNX
  then show ?thesis using assms by (auto simp: hsetnx_def arg_def Let_def split: prod.splits)
next
  case HSTRLEN
  then show ?thesis using assms by (auto simp: hstrlen_def arg_def Let_def split: prod.splits)
next
  case HVALS
  then show ?thesis using assms by (auto simp: hvals_def arg_def Let_def split: prod.splits)
qed

text \<open>
  C9, as stated, fails for the handlers of fixed arity, which make no check of their own:
  with too few arguments they index past the end of the argument list, after the store
  has been read where the missing argument is not the first one.
\<close>

theorem arguments_counterexample:
  "hget [] [] = Panic \<and>
   hexists [''k''] [] = Panic \<and>
   hget [''k''] [(''+k'', [Hash])] = Panic \<and>
   hset [''k'', ''f''] [] = Panic \<and>
   hincrby [''k'', ''f''] [] = Panic"
  by code_simp

text \<open>
  C9, amended. \<^verbatim>\<open>hdel\<close>, \<^verbatim>\<open>hmget\<close> and \<^verbatim>\<open>hmset\<close> check their argument count first
  and reply the argument-count error with their name, whatever the store holds and without
  changing it: \<^verbatim>\<open>hdel\<close> and \<^verbatim>\<open>hmget\<close> below two arguments, \<^verbatim>\<open>hmset\<close> with at most one
  or an even number. These three never index an argument out of range. The other handlers
  make no check and index no argument out of range when they get at least as many
  arguments as their arity: one for \<^verbatim>\<open>hgetall\<close>, \<^verbatim>\<open>hkeys\<close>, \<^verbatim>\<open>hvals\<close>, \<^verbatim>\<open>hlen\<close>, two for
  \<^verbatim>\<open>hexists\<close>, \<^verbatim>\<open>hget\<close>, \<^verbatim>\<open>hstrlen\<close>, three for \<^verbatim>\<open>hset\<close>, \<^verbatim>\<open>hsetnx\<close> and the
  increments.
\<close>

theorem arguments_in_range:
  "(length v < 2 \<longrightarrow>
      hdel v db = Reply (Error (ErrFmtWrongNumberArgument ''hdel'')) db \<and>
      hmget v db = Reply (Error (ErrFmtWrongNumberArgument ''hmget'')) db) \<and>
   (length v \<le> 1 \<or> even (length v) \<longrightarrow>
      hmset v db = Reply (Error (ErrFmtWrongNumberArgument ''hmset'')) db) \<and>
   (arity c \<le> length v \<longrightarrow> handler fl c v db \<noteq> Panic)"
proof (intro conjI impI)
  assume "length v < 2"
  then show "hdel v db = Reply (Error (ErrFmtWrongNumberArgument ''hdel'')) db"
    and "hmget v db = Reply (Error (ErrFmtWrongNumberArgument ''hmget'')) db"
    by (simp_all add: hdel_def hmget_def)
next
  assume "length v \<le> 1 \<or> even (length v)"
  then show "hmset v db = Reply (Error (ErrFmtWrongNumberArgument ''hmset'')) db"
    by (rule hmset_wrong_number)
next
  assume "arity c \<le> length v"
  then show "handler fl c v db \<noteq> Panic"
    by (rule handler_no_panic)
qed

theorem arguments_in_range_witness:
  "hdel [''k''] [] = Reply (Error (ErrFmtWrongNumberArgument ''hdel'')) [] \<and>
   hmset [''k'', ''f''] [] = Reply (Error (ErrFmtWrongNumberArgument ''hmset'')) [] \<and>
   hget [''k'', ''f''] [(''+k'', [Hash])] \<noteq> Panic \<and>
   hdel [] [] \<noteq> Panic"
proof -
  have a: "hdel [''k''] [] = Reply (Error (ErrFmtWrongNumberArgument ''hdel'')) []"
    using arguments_in_range [of "[''k'']" "[]" HDEL whole_numbers, THEN conjunct1] by simp
  have b: "hmset [''k'', ''f''] [] = Reply (Error (ErrFmtWrongNumberArgument ''hmset'')) []"
    using arguments_in_range [of "[''k'', ''f'']" "[]" HDEL whole_numbers,
        THEN conjunct2, THEN conjunct1] by simp
  have c: "hget [''k'', ''f''] [(''+k'', [Hash])] \<noteq> Panic"
    using arguments_in_range [of "[''k'', ''f'']" "[(''+k'', [Hash])]" HGET whole_numbers,
        THEN conjunct2, THEN conjunct2] by simp
  have d: "hdel [] [] \<noteq> Panic"
    using arguments_in_range [of "[]" "[]" HDEL whole_numbers,
        THEN conjunct2, THEN conjunct2] by simp
  show ?thesis
    by (intro conjI a b c d)
qed

section \<open>The floating-point increment\<close>



section \<open>Metadata and fields\<close>

lemma iterate_write_batch_other:
  "\<forall>x \<in> fst ` set ops. \<not> prefix p x \<Longrightarrow> iterate (write_batch ops db) p = iterate db p"
proof (induction ops arbitrary: db)
  case Nil
  then show ?case by (simp add: write_batch_def)
next
  case (Cons e ops)
  obtain k v where e: "e = (k, v)" by (cases e)
  have "iterate (write_batch ops (put k v db)) p = iterate (put k v db) p"
    using Cons by simp
  moreover have "\<not> prefix p k" using Cons.prems e by simp
  ultimately show ?case
    by (simp add: write_batch_def e iterate_put_other)
qed

lemma iterate_PutHash_other:
  assumes "sep_free k" "sep_free k0" "k \<noteq> k0"
  shows "iterate (PutHash db k0 t hash) (encodeFieldKey k []) = iterate db (encodeFieldKey k [])"
proof -
  have "\<not> prefix (encodeFieldKey k []) (encodeFieldKey k0 f)" for f
    using field_prefix_same_key [OF assms(1,2)] assms(3) by blast
  then have "\<forall>x \<in> fst ` set ((encodeMetaKey k0, encodeMetadata t) #
      map (\<lambda>(f, v). (encodeFieldKey k0 f, v)) hash). \<not> prefix (encodeFieldKey k []) x"
    by (auto simp: image_iff)
  then show ?thesis
    unfolding PutHash_def by (rule iterate_write_batch_other)
qed

lemma iterate_PutHash_same:
  assumes "hash \<noteq> []"
  shows "iterate (PutHash db k t hash) (encodeFieldKey k []) \<noteq> []"
proof -
  obtain f v r where h: "hash = (f, v) # r" using assms by (cases hash) auto
  then have "map_of (rev hash) f \<noteq> None"
    by (simp add: map_of_eq_None_iff image_iff) 
  then have "map_of (PutHash db k t hash) (encodeFieldKey k f) \<noteq> None"
    by (auto simp: map_of_PutHash_field split: option.splits)
  then have "encodeFieldKey k f \<in> fst ` set (PutHash db k t hash)"
    by (simp add: map_of_eq_None_iff)
  then show ?thesis
    using field_key_prefix [of k f] by (auto simp only: iterate_empty)
qed

lemma hash_inv_PutHash:
  assumes "sep_free k" "sep_free k0" "hash_inv db k" "hash \<noteq> []"
  shows "hash_inv (PutHash db k0 Hash hash) k"
proof (cases "k = k0")
  case True
  then show ?thesis
    using iterate_PutHash_same [OF assms(4)] by (simp add: hash_inv_def Has_PutHash_same)
next
  case False
  then show ?thesis
    using assms(3) iterate_PutHash_other [OF assms(1,2) False]
    by (simp add: hash_inv_def Has_PutHash_other)
qed

lemma iterate_delete: "iterate (delete db ks) p = filter (\<lambda>(k, v). k \<notin> set ks) (iterate db p)"
  by (induction db) (auto simp: iterate_def delete_def)

lemma iterate_delete_other:
  "\<forall>x \<in> set ks. \<not> prefix p x \<Longrightarrow> iterate (delete db ks) p = iterate db p"
  by (induction db) (auto simp: iterate_def delete_def)

lemma Has_delete_other:
  "encodeMetaKey k \<notin> set ks \<Longrightarrow> Has (delete db ks) k = Has db k"
  by (simp add: Has_def map_of_delete)

lemma Has_delete_meta: "Has (delete db [encodeMetaKey k]) k = (False, NoType)"
  by (simp add: Has_def map_of_delete)

lemma hash_inv_DeleteFields:
  assumes "sep_free k" "sep_free k0" "hash_inv db k" "Has db k0 = (True, Hash)"
  shows "hash_inv (DeleteFields db k0 flds) k"
proof -
  let ?keys = "map (encodeFieldKey k0) flds"
  let ?db1 = "delete db ?keys"
  let ?p0 = "encodeFieldKey k0 []"
  have meta1: "Has ?db1 k' = Has db k'" for k'
    by (rule Has_delete_other) auto
  show ?thesis
  proof (cases "k = k0")
    case True
    show ?thesis
    proof (cases "iterate ?db1 ?p0 = []")
      case True
      then have "iterate (delete ?db1 [encodeMetaKey k0]) ?p0 = []"
        by (simp add: iterate_delete_other)
      then show ?thesis
        using True \<open>k = k0\<close> by (simp add: hash_inv_def DeleteFields_def Let_def Has_delete_meta)
    next
      case False
      then show ?thesis
        using \<open>k = k0\<close> assms(4) by (simp add: hash_inv_def DeleteFields_def Let_def meta1)
    qed
  next
    case False
    have np: "\<forall>x \<in> set ?keys. \<not> prefix (encodeFieldKey k []) x"
      using field_prefix_same_key [OF assms(1,2)] False by auto
    have it1: "iterate ?db1 (encodeFieldKey k []) = iterate db (encodeFieldKey k [])"
      using np by (rule iterate_delete_other)
    have it2: "iterate (delete ?db1 [encodeMetaKey k0]) (encodeFieldKey k []) =
        iterate db (encodeFieldKey k [])"
      using it1 by (simp add: iterate_delete_other)
    have has2: "Has (delete ?db1 [encodeMetaKey k0]) k = Has db k"
      using False by (simp add: Has_delete_other meta1)
    show ?thesis
      using assms(3) it1 it2 has2 meta1 [of k]
      by (simp add: hash_inv_def DeleteFields_def Let_def)
  qed
qed

lemma map_set_not_empty: "map_set k v m \<noteq> []"
  by (induction k v m rule: map_set.induct) simp_all

lemma fold_map_set_keeps: "hash \<noteq> [] \<Longrightarrow> fold (\<lambda>(f, x). map_set f x) ps hash \<noteq> []"
proof (induction ps arbitrary: hash)
  case Nil
  then show ?case by simp
next
  case (Cons p ps)
  obtain f x where p: "p = (f, x)" by (cases p)
  have "fold (\<lambda>(f, x). map_set f x) ps (map_set f x hash) \<noteq> []"
    by (rule Cons.IH) (rule map_set_not_empty)
  then show ?case by (simp add: p)
qed

lemma fold_map_set_not_empty:
  "ps \<noteq> [] \<Longrightarrow> fold (\<lambda>(f, x). map_set f x) ps [] \<noteq> []"
proof (cases ps)
  case Nil
  assume "ps \<noteq> []"
  with Nil show ?thesis by simp
next
  case (Cons p ps')
  obtain f x where p: "p = (f, x)" by (cases p)
  have "fold (\<lambda>(f, x). map_set f x) ps' (map_set f x []) \<noteq> []"
    by (rule fold_map_set_keeps) (rule map_set_not_empty)
  then show ?thesis by (simp add: Cons p)
qed

lemma effect_hmset:
  assumes "hmset (k0 # rest) db = Reply r db'"
  shows "db' = db \<or>
         (\<exists>hash. hash \<noteq> [] \<and> db' = PutHash db k0 Hash hash) \<or>
         (Has db k0 = (True, Hash) \<and> (\<exists>flds. db' = DeleteFields db k0 flds))"
proof (cases "length (k0 # rest) \<le> 1 \<or> length (k0 # rest) mod 2 \<noteq> 1")
  case True
  then show ?thesis using assms by (simp add: hmset_def)
next
  case False
  then have "odd (length (k0 # rest))" unfolding odd_iff_mod_2_eq_one by blast
  then obtain k ps where v: "k0 # rest = k # pair_args ps"
    using odd_args_are_pairs by blast
  have ps: "ps \<noteq> []" using False v by (cases ps) auto
  have ne: "fold (\<lambda>(f, x). map_set f x) ps [] \<noteq> []"
    using ps by (rule fold_map_set_not_empty)
  have "hmset (k0 # rest) db =
      (if wrong_type db k0 then Reply (Error ErrWrongType) db
       else Reply OkSimpleString (PutHash db k0 Hash (fold (\<lambda>(f, x). map_set f x) ps [])))"
    using hmset_pairs [OF ps, of k0 db] v by simp
  then show ?thesis
    using assms ne by (cases "wrong_type db k0") auto
qed

text \<open>What a handler can do to the store: nothing, one \<^verbatim>\<open>PutHash\<close> of a non-empty map to
  its key, or, on a hash, one \<^verbatim>\<open>DeleteFields\<close> of its key.\<close>

lemma handler_effect:
  assumes "handler fl c (k0 # rest) db = Reply r db'"
  shows "db' = db \<or>
         (\<exists>hash. hash \<noteq> [] \<and> db' = PutHash db k0 Hash hash) \<or>
         (Has db k0 = (True, Hash) \<and> (\<exists>flds. db' = DeleteFields db k0 flds))"
proof -
  obtain e t where has: "Has db k0 = (e, t)" by (cases "Has db k0")
  note unfold = arg_def Let_def has GetFields_single
  show ?thesis
  proof (cases c)
    case HDEL
    then show ?thesis using assms by (auto simp: hdel_def unfold split: if_splits)
  next
    case HEXISTS
    then show ?thesis using assms by (auto simp: hexists_def unfold split: if_splits)
  next
    case HGET
    then show ?thesis using assms by (auto simp: hget_def unfold split: if_splits)
  next
    case HGETALL
    then show ?thesis using assms by (auto simp: hgetall_def unfold split: if_splits)
  next
    case HINCRBY
    then show ?thesis using assms
      by (auto simp: hincrby_def unfold split: if_splits option.splits)
  next
    case HINCRBYFLOAT
    then show ?thesis using assms
      by (auto simp: hincrbyfloat_def unfold split: if_splits option.splits)
  next
    case HKEYS
    then show ?thesis using assms by (auto simp: hkeys_def unfold split: if_splits)
  next
    case HLEN
    then show ?thesis using assms by (auto simp: hlen_def unfold split: if_splits)
  next
    case HMGET
    then show ?thesis using assms by (auto simp: hmget_def unfold split: if_splits)
  next
    case HMSET
    then show ?thesis using assms effect_hmset by simp
  next
    case HSET
    then show ?thesis using assms by (auto simp: hset_def unfold split: if_splits)
  next
    case HSETNX
    then show ?thesis using assms by (auto simp: hsetnx_def unfold split: if_splits)
  next
    case HSTRLEN
    then show ?thesis using assms by (auto simp: hstrlen_def unfold split: if_splits)
  next
    case HVALS
    then show ?thesis using assms by (auto simp: hvals_def unfold split: if_splits)
  qed
qed

lemma hash_inv_handler:
  assumes "sep_free k" "sep_free k0" "hash_inv db k"
    and "handler fl c (k0 # rest) db = Reply r db'"
  shows "hash_inv db' k"
  using handler_effect [OF assms(4)] assms(3)
    hash_inv_PutHash [OF assms(1,2,3)] hash_inv_DeleteFields [OF assms(1,2,3)]
  by blast

lemma hdel_last_fields:
  assumes "Has db k = (True, Hash)" "flds \<noteq> []"
    and "fst ` set (iterate db (encodeFieldKey k [])) \<subseteq> encodeFieldKey k ` set flds"
  shows "\<exists>n db'. hdel (k # flds) db = Reply (Integer n) db' \<and>
           \<not> fst (Has db' k) \<and>
           iterate db' (encodeFieldKey k []) = [] \<and>
           hlen [k] db' = Reply ZeroInteger db'"
proof -
  let ?p = "encodeFieldKey k []"
  let ?db1 = "delete db (map (encodeFieldKey k) flds)"
  let ?db' = "delete ?db1 [encodeMetaKey k]"
  have "filter (\<lambda>(x, v). x \<notin> set (map (encodeFieldKey k) flds)) (iterate db ?p) = []"
    using assms(3) by (auto simp: filter_empty_conv)
  then have i1: "iterate ?db1 ?p = []"
    by (simp only: iterate_delete)
  then have del: "DeleteFields db k flds = ?db'"
    by (simp add: DeleteFields_def)
  have i2: "iterate ?db' ?p = []"
    using i1 by (simp add: iterate_delete_other)
  have has: "Has ?db' k = (False, NoType)"
    by (rule Has_delete_meta)
  have len: "\<not> length (k # flds) < 2"
    using assms(2) by (cases flds) auto
  have run: "hdel (k # flds) db =
      Reply (Integer (int (length (filter (\<lambda>(k, value). length value \<noteq> 0)
        (GetFields db k flds))))) ?db'"
    using len assms(1) del by (simp add: hdel_def arg_def Let_def)
  have read: "hlen [k] ?db' = Reply ZeroInteger ?db'"
    by (simp add: hlen_def arg_def has)
  have absent: "\<not> fst (Has ?db' k)"
    by (simp add: has)
  show ?thesis
    using run absent i2 read by blast
qed

text \<open>
  C1, as stated, fails for record keys that hold the separator byte: the entry of field
  \<open>f\<close> of key \<open>a|b\<close> is also an entry under the field prefix of key \<open>a\<close>. After
  \<^verbatim>\<open>hset\<close> on \<open>a|b\<close> in the empty store the key \<open>a\<close> has a field entry and no
  metadata; and after \<^verbatim>\<open>hset\<close> of field \<open>x\<close> of \<open>a\<close> and \<^verbatim>\<open>hdel\<close> of that field, the
  metadata entry of \<open>a\<close> stays and \<^verbatim>\<open>hlen\<close> replies 1.
\<close>

theorem hash_metadata_counterexample:
  "hash_inv [] ''a'' \<and>
   hset [''a|b'', ''f'', ''v''] [] = Reply OneInteger [(''+a|b'', [Hash]), (''-a|b|f'', ''v'')] \<and>
   Has [(''+a|b'', [Hash]), (''-a|b|f'', ''v'')] ''a'' = (False, NoType) \<and>
   iterate [(''+a|b'', [Hash]), (''-a|b|f'', ''v'')] (encodeFieldKey ''a'' []) =
     [(encodeFieldKey ''a'' ''b|f'', ''v'')] \<and>
   \<not> hash_inv [(''+a|b'', [Hash]), (''-a|b|f'', ''v'')] ''a'' \<and>
   hset [''a'', ''x'', ''y''] [(''+a|b'', [Hash]), (''-a|b|f'', ''v'')] =
     Reply OneInteger
       [(''+a'', [Hash]), (''+a|b'', [Hash]), (''-a|b|f'', ''v''), (''-a|x'', ''y'')] \<and>
   hdel [''a'', ''x'']
     [(''+a'', [Hash]), (''+a|b'', [Hash]), (''-a|b|f'', ''v''), (''-a|x'', ''y'')] =
     Reply OneInteger [(''+a'', [Hash]), (''+a|b'', [Hash]), (''-a|b|f'', ''v'')] \<and>
   Has [(''+a'', [Hash]), (''+a|b'', [Hash]), (''-a|b|f'', ''v'')] ''a'' = (True, Hash) \<and>
   hlen [''a''] [(''+a'', [Hash]), (''+a|b'', [Hash]), (''-a|b|f'', ''v'')] =
     Reply OneInteger [(''+a'', [Hash]), (''+a|b'', [Hash]), (''-a|b|f'', ''v'')]"
  by code_simp

text \<open>
  C1, amended. The empty store satisfies the invariant for every key. For record keys
  \<open>k\<close> and \<open>k0\<close> free of the separator byte, every handler run to its reply on arguments
  with key \<open>k0\<close> keeps the invariant of \<open>k\<close>: the metadata entry of \<open>k\<close> with the hash
  type exists if and only if an entry lies under the field prefix of \<open>k\<close>. And for every
  key of the hash type, \<^verbatim>\<open>hdel\<close> of fields that cover all the entries under its field
  prefix removes the metadata entry: afterwards no entry lies under the prefix, \<^verbatim>\<open>Has\<close>
  reports the key absent, and \<^verbatim>\<open>hlen\<close> replies 0.
\<close>

theorem hash_metadata_invariant:
  "hash_inv [] k \<and>
   (sep_free k \<and> sep_free k0 \<and> hash_inv db k \<and>
    handler fl c (k0 # rest) db = Reply r db' \<longrightarrow> hash_inv db' k) \<and>
   (Has db k = (True, Hash) \<and> flds \<noteq> [] \<and>
    fst ` set (iterate db (encodeFieldKey k [])) \<subseteq> encodeFieldKey k ` set flds \<longrightarrow>
      (\<exists>n db''. hdel (k # flds) db = Reply (Integer n) db'' \<and>
         \<not> fst (Has db'' k) \<and>
         iterate db'' (encodeFieldKey k []) = [] \<and>
         hlen [k] db'' = Reply ZeroInteger db''))"
proof (intro conjI impI)
  show "hash_inv [] k"
    by (simp add: hash_inv_def Has_def iterate_def)
next
  assume "sep_free k \<and> sep_free k0 \<and> hash_inv db k \<and>
    handler fl c (k0 # rest) db = Reply r db'"
  then show "hash_inv db' k"
    using hash_inv_handler [of k k0 db fl c rest r db'] by simp
next
  assume "Has db k = (True, Hash) \<and> flds \<noteq> [] \<and>
    fst ` set (iterate db (encodeFieldKey k [])) \<subseteq> encodeFieldKey k ` set flds"
  then show "\<exists>n db''. hdel (k # flds) db = Reply (Integer n) db'' \<and>
         \<not> fst (Has db'' k) \<and>
         iterate db'' (encodeFieldKey k []) = [] \<and>
         hlen [k] db'' = Reply ZeroInteger db''"
    using hdel_last_fields [of db k flds] by simp
qed

theorem hash_metadata_invariant_witness:
  "sep_free ''k'' \<and>
   hash_inv [(''+k'', [Hash]), (''-k|f'', ''v'')] ''k'' \<and>
   hdel [''k'', ''f''] [(''+k'', [Hash]), (''-k|f'', ''v'')] = Reply OneInteger [] \<and>
   hash_inv [] ''k'' \<and>
   (\<exists>n db''. hdel [''k'', ''f''] [(''+k'', [Hash]), (''-k|f'', ''v'')] = Reply (Integer n) db'' \<and>
      \<not> fst (Has db'' ''k'') \<and>
      iterate db'' (encodeFieldKey ''k'' []) = [] \<and>
      hlen [''k''] db'' = Reply ZeroInteger db'')"
proof -
  let ?db = "[(''+k'', [Hash]), (''-k|f'', ''v'')]"
  have s: "sep_free ''k''"
    by (simp add: sep_free_def)
  have i: "hash_inv ?db ''k''"
    by code_simp
  have run: "hdel [''k'', ''f''] ?db = Reply OneInteger []"
    by code_simp
  have run': "handler whole_numbers HDEL (''k'' # [''f'']) ?db = Reply OneInteger []"
    using run by simp
  note inst = hash_metadata_invariant [of "''k''" "''k''" ?db whole_numbers HDEL "[''f'']"
      OneInteger "[]" "[''f'']"]
  have kept: "hash_inv [] ''k''"
    by (rule inst [THEN conjunct2, THEN conjunct1, THEN mp]) (intro conjI s i run')
  have h: "Has ?db ''k'' = (True, Hash)"
    by code_simp
  have cover: "fst ` set (iterate ?db (encodeFieldKey ''k'' [])) \<subseteq> encodeFieldKey ''k'' ` set [''f'']"
    by (simp add: iterate_def encodeFieldKey_def ValuePrefix_def Seperator_def)
  have n: "[''f''] \<noteq> []"
    by simp
  have last: "\<exists>n db''. hdel [''k'', ''f''] ?db = Reply (Integer n) db'' \<and>
      \<not> fst (Has db'' ''k'') \<and>
      iterate db'' (encodeFieldKey ''k'' []) = [] \<and>
      hlen [''k''] db'' = Reply ZeroInteger db''"
    by (rule inst [THEN conjunct2, THEN conjunct2, THEN mp]) (intro conjI h n cover)
  show ?thesis
    by (intro conjI s i run kept last)
qed

section \<open>Stored empty values\<close>

lemma stored_entry_iterated:
  "map_of db (encodeFieldKey k f) = Some v \<Longrightarrow>
   (encodeFieldKey k f, v) \<in> set (iterate db (encodeFieldKey k []))"
  by (simp add: set_iterate map_of_SomeD)

lemma hlen_result:
  "Has db k = (True, Hash) \<Longrightarrow>
   hlen [k] db = Reply (Integer (int (length (iterate db (encodeFieldKey k []))))) db"
  by (simp add: hlen_def arg_def GetFieldNames_def)

lemma hkeys_result:
  "Has db k = (True, Hash) \<Longrightarrow>
   hkeys [k] db = Reply (Array (map BulkString (GetFieldNames db k))) db"
  by (simp add: hkeys_def arg_def)

text \<open>
  C10, as stated, fails in its headline: a stored zero-length value is not
  indistinguishable from an absent field, since the commands that enumerate the fields
  count and list it. After \<^verbatim>\<open>hset\<close> of the empty value to field \<open>f\<close> of the absent key
  \<open>k\<close> the reply of \<^verbatim>\<open>hlen\<close> is 1 and not 0, \<^verbatim>\<open>hkeys\<close> lists \<open>f\<close> and \<^verbatim>\<open>hgetall\<close>
  lists \<open>f\<close> with the empty value; on a key that has the field \<open>g\<close> the reply of
  \<^verbatim>\<open>hlen\<close> goes from 1 to 2.
\<close>

theorem empty_value_counterexample:
  "hlen [''k''] [] = Reply ZeroInteger [] \<and>
   hset [''k'', ''f'', ''''] [] = Reply OneInteger [(''+k'', [Hash]), (''-k|f'', '''')] \<and>
   hlen [''k''] [(''+k'', [Hash]), (''-k|f'', '''')] =
     Reply OneInteger [(''+k'', [Hash]), (''-k|f'', '''')] \<and>
   hkeys [''k''] [(''+k'', [Hash]), (''-k|f'', '''')] =
     Reply (Array [BulkString ''f'']) [(''+k'', [Hash]), (''-k|f'', '''')] \<and>
   hgetall [''k''] [(''+k'', [Hash]), (''-k|f'', '''')] =
     Reply (Array [BulkString ''f'', BulkString '''']) [(''+k'', [Hash]), (''-k|f'', '''')] \<and>
   hlen [''k''] [(''+k'', [Hash]), (''-k|g'', ''w'')] =
     Reply OneInteger [(''+k'', [Hash]), (''-k|g'', ''w'')] \<and>
   hset [''k'', ''f'', ''''] [(''+k'', [Hash]), (''-k|g'', ''w'')] =
     Reply OneInteger [(''+k'', [Hash]), (''-k|f'', ''''), (''-k|g'', ''w'')] \<and>
   hlen [''k''] [(''+k'', [Hash]), (''-k|f'', ''''), (''-k|g'', ''w'')] =
     Reply (Integer 2) [(''+k'', [Hash]), (''-k|f'', ''''), (''-k|g'', ''w'')]"
  by code_simp

text \<open>
  C10, amended. After a successful \<^verbatim>\<open>hset\<close> (or \<^verbatim>\<open>hmset\<close>) of the zero-length value to
  field \<open>f\<close> of key \<open>k\<close>, the store holds the empty value under the field key. The
  commands that look the single field up treat it as absent: \<^verbatim>\<open>hexists\<close> replies 0,
  \<^verbatim>\<open>hget\<close> replies the nil bulk string, \<^verbatim>\<open>hstrlen\<close> replies 0, and \<^verbatim>\<open>hsetnx\<close> with any
  value \<open>v2\<close> writes \<open>v2\<close> over it and replies 1. The commands that enumerate the fields
  do not: \<^verbatim>\<open>hlen\<close> replies a count of at least 1, and for a key free of the separator
  byte \<^verbatim>\<open>hkeys\<close> lists \<open>f\<close> and \<^verbatim>\<open>hgetall\<close> lists \<open>f\<close> with the empty value.
\<close>

theorem empty_value_reads_as_absent:
  assumes "hset [k, f, []] db = Reply r db' \<or> hmset [k, f, []] db = Reply r db'"
    and "r \<noteq> Error ErrWrongType"
  shows "map_of db' (encodeFieldKey k f) = Some [] \<and>
         hexists [k, f] db' = Reply ZeroInteger db' \<and>
         hget [k, f] db' = Reply NilBulkString db' \<and>
         hstrlen [k, f] db' = Reply ZeroInteger db' \<and>
         (\<exists>db''. hsetnx [k, f, v2] db' = Reply OneInteger db'' \<and>
                 map_of db'' (encodeFieldKey k f) = Some v2) \<and>
         (\<exists>n. hlen [k] db' = Reply (Integer (int n)) db' \<and> 0 < n) \<and>
         (sep_free k \<longrightarrow>
            (\<exists>fs. hkeys [k] db' = Reply (Array (map BulkString fs)) db' \<and> f \<in> set fs) \<and>
            (\<exists>arr. hgetall [k] db' =
               Reply (Array (concat (map (\<lambda>field. [BulkString (Key field), BulkString (Value field)])
                 arr))) db' \<and>
               \<lparr>Key = f, Value = []\<rparr> \<in> set arr))"
proof -
  let ?p = "encodeFieldKey k []"
  have ok: "\<not> wrong_type db k"
    using assms hset_wrong_type [of db k "[f, []]"] hmset_single [of k f "[]" db] by auto
  have db': "db' = PutHash db k Hash [(f, [])]"
    using assms(1) ok by (auto simp: hset_result hmset_single)
  have has: "Has db' k = (True, Hash)" and nw: "\<not> wrong_type db' k"
    by (simp_all add: db' Has_PutHash_same)
  have stored: "map_of db' (encodeFieldKey k f) = Some []"
    by (simp add: db' map_of_PutHash_field)
  then have empty: "get db' (encodeFieldKey k f) = []"
    by (simp add: get_def)
  have "hsetnx [k, f, v2] db' = Reply OneInteger (PutHash db' k Hash [(f, v2)])"
    using nw empty by (simp add: hsetnx_result)
  moreover have "map_of (PutHash db' k Hash [(f, v2)]) (encodeFieldKey k f) = Some v2"
    by (simp add: map_of_PutHash_field)
  ultimately have overwrite: "\<exists>db''. hsetnx [k, f, v2] db' = Reply OneInteger db'' \<and>
      map_of db'' (encodeFieldKey k f) = Some v2"
    by blast
  have lookups: "hexists [k, f] db' = Reply ZeroInteger db'"
      "hget [k, f] db' = Reply NilBulkString db'"
      "hstrlen [k, f] db' = Reply ZeroInteger db'"
    using empty has nw by (simp_all add: hexists_result hget_result hstrlen_result)
  have entry: "(encodeFieldKey k f, []) \<in> set (iterate db' ?p)"
    using stored by (rule stored_entry_iterated)
  then have "0 < length (iterate db' ?p)"
    by (cases "iterate db' ?p") auto
  then have count: "\<exists>n. hlen [k] db' = Reply (Integer (int n)) db' \<and> 0 < n"
    using hlen_result [OF has] by blast
  have listed: "(\<exists>fs. hkeys [k] db' = Reply (Array (map BulkString fs)) db' \<and> f \<in> set fs) \<and>
      (\<exists>arr. hgetall [k] db' =
         Reply (Array (concat (map (\<lambda>field. [BulkString (Key field), BulkString (Value field)])
           arr))) db' \<and>
         \<lparr>Key = f, Value = []\<rparr> \<in> set arr)" if sep: "sep_free k"
  proof
    have "field_of_key (encodeFieldKey k f) \<in> set (GetFieldNames db' k)"
      unfolding GetFieldNames_def Let_def set_map using entry by force
    then have "f \<in> set (GetFieldNames db' k)"
      using sep by (simp add: field_of_field_key)
    then show "\<exists>fs. hkeys [k] db' = Reply (Array (map BulkString fs)) db' \<and> f \<in> set fs"
      using hkeys_result [OF has] by blast
  next
    have "\<lparr>Key = field_of_key (encodeFieldKey k f), Value = []\<rparr> \<in> set (GetHashAsArray db' k)"
      unfolding GetHashAsArray_def Let_def set_map using entry by force
    then have "\<lparr>Key = f, Value = []\<rparr> \<in> set (GetHashAsArray db' k)"
      using sep by (simp add: field_of_field_key)
    then show "\<exists>arr. hgetall [k] db' =
         Reply (Array (concat (map (\<lambda>field. [BulkString (Key field), BulkString (Value field)])
           arr))) db' \<and>
         \<lparr>Key = f, Value = []\<rparr> \<in> set arr"
      using hgetall_result [OF has] by blast
  qed
  show ?thesis
    using stored lookups overwrite count listed by (intro conjI impI) simp_all
qed

theorem empty_value_reads_as_absent_witness:
  "hset [''k'', ''f'', []] [] = Reply OneInteger [(''+k'', [Hash]), (''-k|f'', [])] \<and>
   hexists [''k'', ''f''] [(''+k'', [Hash]), (''-k|f'', [])] =
     Reply ZeroInteger [(''+k'', [Hash]), (''-k|f'', [])] \<and>
   hget [''k'', ''f''] [(''+k'', [Hash]), (''-k|f'', [])] =
     Reply NilBulkString [(''+k'', [Hash]), (''-k|f'', [])] \<and>
   hstrlen [''k'', ''f''] [(''+k'', [Hash]), (''-k|f'', [])] =
     Reply ZeroInteger [(''+k'', [Hash]), (''-k|f'', [])] \<and>
   (\<exists>n. hlen [''k''] [(''+k'', [Hash]), (''-k|f'', [])] =
      Reply (Integer (int n)) [(''+k'', [Hash]), (''-k|f'', [])] \<and> 0 < n) \<and>
   (\<exists>fs. hkeys [''k''] [(''+k'', [Hash]), (''-k|f'', [])] =
      Reply (Array (map BulkString fs)) [(''+k'', [Hash]), (''-k|f'', [])] \<and> ''f'' \<in> set fs)"
proof -
  let ?db = "[(''+k'', [Hash]), (''-k|f'', [])]"
  have run: "hset [''k'', ''f'', []] [] = Reply OneInteger ?db"
    by code_simp
  have ok: "OneInteger \<noteq> Error ErrWrongType"
    by simp
  have s: "sep_free ''k''"
    by (simp add: sep_free_def)
  note inst = empty_value_reads_as_absent [OF disjI1 [OF run] ok, of "''v''"]
  note a = inst [THEN conjunct2, THEN conjunct1]
  note b = inst [THEN conjunct2, THEN conjunct2, THEN conjunct1]
  note c = inst [THEN conjunct2, THEN conjunct2, THEN conjunct2, THEN conjunct1]
  note d = inst [THEN conjunct2, THEN conjunct2, THEN conjunct2, THEN conjunct2,
      THEN conjunct2, THEN conjunct1]
  note e = inst [THEN conjunct2, THEN conjunct2, THEN conjunct2, THEN conjunct2,
      THEN conjunct2, THEN conjunct2, THEN mp, OF s, THEN conjunct1]
  show ?thesis
    by (intro conjI run a b c d e)
qed

section \<open>Adequacy of the store model\<close>

text \<open>
  The handlers keep the store strictly sorted by key, and a sorted store is determined by
  the map from keys to values that it represents. So the order in which a batch puts the
  pairs of a Go map, which the language leaves open, does not show in the store.
\<close>

lemma sorted_store_distinct: "sorted_store db \<Longrightarrow> distinct (map fst db)"
  by (simp add: sorted_store_def strict_sorted_iff)

lemma sorted_write_batch: "sorted_store db \<Longrightarrow> sorted_store (write_batch ops db)"
  unfolding write_batch_def
  by (induction ops arbitrary: db) (auto simp: sorted_put)

lemma sorted_PutHash: "sorted_store db \<Longrightarrow> sorted_store (PutHash db k t hash)"
  unfolding PutHash_def by (rule sorted_write_batch)

lemma sorted_DeleteFields: "sorted_store db \<Longrightarrow> sorted_store (DeleteFields db k flds)"
  by (simp add: DeleteFields_def Let_def sorted_delete)

lemma sorted_store_handler:
  assumes "sorted_store db" "handler fl c (k0 # rest) db = Reply r db'"
  shows "sorted_store db'"
  using handler_effect [OF assms(2)] assms(1) sorted_PutHash sorted_DeleteFields by blast

lemma alist_rebuild:
  "distinct (map fst xs) \<Longrightarrow> map (\<lambda>k. (k, the (map_of xs k))) (map fst xs) = xs"
proof (induction xs)
  case Nil
  then show ?case by simp
next
  case (Cons e xs)
  obtain k v where e: "e = (k, v)" by (cases e)
  have fresh: "k \<notin> fst ` set xs" and d: "distinct (map fst xs)"
    using Cons.prems e by auto
  have "map (\<lambda>x. (x, the (map_of (e # xs) x))) (map fst xs) =
      map (\<lambda>x. (x, the (map_of xs x))) (map fst xs)"
  proof (rule map_cong [OF refl])
    fix x assume "x \<in> set (map fst xs)"
    then have "x \<noteq> k" using fresh by auto
    then show "(x, the (map_of (e # xs) x)) = (x, the (map_of xs x))" by (simp add: e)
  qed
  also have "\<dots> = xs" using Cons.IH d by simp
  finally show ?case by (simp add: e)
qed

lemma sorted_store_unique:
  assumes "sorted_store xs" "sorted_store ys" "map_of xs = map_of ys"
  shows "xs = ys"
proof -
  have "set (map fst xs) = set (map fst ys)"
    using assms(3) by (simp add: dom_map_of_conv_image_fst [symmetric])
  then have keys: "map fst xs = map fst ys"
    using assms(1,2) unfolding sorted_store_def strict_sorted_iff
    by (intro sorted_distinct_set_unique) simp_all
  have "xs = map (\<lambda>k. (k, the (map_of xs k))) (map fst xs)"
    using alist_rebuild [OF sorted_store_distinct [OF assms(1)]] by simp
  also have "\<dots> = map (\<lambda>k. (k, the (map_of ys k))) (map fst ys)"
    by (simp only: keys assms(3))
  also have "\<dots> = ys"
    by (rule alist_rebuild [OF sorted_store_distinct [OF assms(2)]])
  finally show ?thesis .
qed

lemma PutHash_order_irrelevant:
  assumes "sorted_store db" "distinct (map fst hash)" "distinct (map fst hash')"
    and "set hash = set hash'"
  shows "PutHash db k t hash = PutHash db k t hash'"
proof -
  have "map_of hash = map_of hash'"
    using assms(2,3,4) by (simp add: map_of_inject_set)
  then have same: "map_of (rev hash) = map_of (rev hash')"
    using assms(2,3) by (simp add: map_of_rev_distinct)
  have "map_of (PutHash db k t hash) x = map_of (PutHash db k t hash') x" for x
  proof (cases "x = encodeMetaKey k")
    case True
    then show ?thesis by (simp add: map_of_PutHash_meta)
  next
    case nm: False
    show ?thesis
    proof (cases "\<exists>f. x = encodeFieldKey k f")
      case True
      then obtain f where "x = encodeFieldKey k f" by blast
      then show ?thesis by (simp add: map_of_PutHash_field same)
    next
      case False
      then show ?thesis using nm by (simp add: map_of_PutHash_other)
    qed
  qed
  then have "map_of (PutHash db k t hash) = map_of (PutHash db k t hash')"
    by (rule ext)
  then show ?thesis
    using sorted_PutHash [OF assms(1)] by (intro sorted_store_unique)
qed

end
